theory Spec2Isabelle
  imports Main
begin

section \<open>Positions, tokens and diagnostics\<close>

text \<open>
  Modelled from the spec: the classes \<open>Span\<close>, \<open>Token\<close> and \<open>Diagnostic\<close> and the
  enumeration \<open>Level\<close> are imported from \<open>../position\<close>, \<open>../grammar\<close> and
  \<open>../diagnostic\<close> and are not part of the sources at hand. Their components are the
  arguments of the constructor calls in the sources: \<open>new Span([line, column], [line,
  column])\<close>, read back as \<open>span.start\<close> and \<open>span.end\<close>;
  \<open>new Token(type, lexeme, span)\<close>; \<open>new Diagnostic(level, source, msg, span)\<close>, to
  which \<open>error.info(msg, span)\<close> adds annotations. The levels are the three of the
  specification.
\<close>

type_synonym Position = "nat \<times> nat"

datatype Span = Span (start: Position) (finish: Position)

text \<open>
  Modelled from the spec: the enumeration \<open>LexicalToken\<close> is imported from
  \<open>../grammar\<close> and is not part of the sources at hand. The members below are the ones
  the tokenizer and the parser functions name (\<open>NEWLINE\<close>, \<open>INDENT\<close>, \<open>OUTDENT\<close>,
  \<open>EOF\<close>, \<open>COMMENT\<close>, \<open>NUMBER\<close>, \<open>STRING\<close>, \<open>IDENTIFIER\<close>, \<open>IS_NOT\<close>,
  \<open>IS_LESS_THAN\<close>, \<open>IS_GREATER_THAN\<close>, \<open>DOT\<close>, \<open>LT\<close>, \<open>L_PAR\<close>, \<open>R_PAR\<close>,
  \<open>COLON\<close>, \<open>EQUAL\<close>) together with the keywords, operators and punctuation that the
  specification lists for the expression grammar.
\<close>

datatype LexicalToken =
    NEWLINE | INDENT | OUTDENT | EOF | COMMENT
  | NUMBER | STRING | IDENTIFIER
  | IS_NOT | IS_LESS_THAN | IS_GREATER_THAN
  | DOT | LT | GT | L_PAR | R_PAR | L_SQB | R_SQB | L_BRACE | R_BRACE
  | COLON | COMMA | EQUAL
  | PLUS | MINUS | STAR | SLASH | PERCENT
  | EQUAL_EQUAL | BANG_EQUAL | LT_EQUAL | GT_EQUAL | STAR_STAR
  | TRUE | FALSE | NULL | THIS | SUPER | NEW | ASYNC
  | NOT | AND | OR | IS | INSTANCEOF
  | VAR | IF | ELSE

text \<open>
  Modelled from the spec: \<open>Token\<close>, \<open>Level\<close> and \<open>Diagnostic\<close>, as described above.
  The last component of a diagnostic is the list of its \<open>info\<close> annotations, empty on
  construction.
\<close>

datatype Token = Token (type: LexicalToken) (lexeme: string) (span: Span)

datatype Level = ERROR | WARNING | INFO

datatype Diagnostic =
  Diagnostic (level: Level) (source: string) (msg: string) (dspan: Span)
    (info: "(string \<times> Span) list")

section \<open>The tokenizer\<close>

text \<open>
  Characters are code units below 256. The two lookup tables \<open>CHAR_TOKENS\<close> and
  \<open>WORD_TOKENS\<close> are imported from \<open>../grammar\<close> and are not part of the sources at
  hand: every function that consults them takes them as the parameters \<open>ct\<close> and
  \<open>wt\<close>. \<open>ct c = Some k\<close> stands for an own property \<open>c\<close> of \<open>CHAR_TOKENS\<close> whose
  value \<open>k\<close> passes the truthiness test of \<open>scanLine\<close>; \<open>wt w = Some k\<close> stands for an
  own property \<open>w\<close> of \<open>WORD_TOKENS\<close>.
\<close>

type_synonym CharTokens = "char \<Rightarrow> LexicalToken option"
type_synonym WordTokens = "string \<Rightarrow> LexicalToken option"

record Tokenizer =
  lines :: "string list"
  tokens :: "Token list"
  comments :: "Token list"
  diagnostics :: "Diagnostic list"
  indent :: nat

subsection \<open>Character classes and regular expressions\<close>

definition quote :: char where
  "quote = CHR 0x27"

definition tab :: char where
  "tab = CHR 0x09"

definition isDigit :: "char \<Rightarrow> bool" where
  "isDigit c = (c \<in> set ''0123456789'')"

definition isLetter :: "char \<Rightarrow> bool" where
  "isLetter c = (c \<in> set ''abcdefghijklmnopqrstuvwxyzABCDEFGHIJKLMNOPQRSTUVWXYZ'')"

text \<open>\<open>\w\<close>\<close>

definition isWordChar :: "char \<Rightarrow> bool" where
  "isWordChar c = (isLetter c \<or> isDigit c \<or> c = CHR ''_'')"

text \<open>\<open>\s\<close> and the characters \<open>trimLeft\<close> removes, among the code units below 256.\<close>

definition isSpace :: "char \<Rightarrow> bool" where
  "isSpace c = (c \<in> set [CHR 0x09, CHR 0x0A, CHR 0x0B, CHR 0x0C, CHR 0x0D, CHR 0x20, CHR 0xA0])"

text \<open>The characters that \<open>.\<close> does not match.\<close>

definition isLineTerminator :: "char \<Rightarrow> bool" where
  "isLineTerminator c = (c = CHR 0x0A \<or> c = CHR 0x0D)"

definition trimLeft :: "string \<Rightarrow> string" where
  "trimLeft s = dropWhile isSpace s"

text \<open>\<open>source.split(/\r?\n/)\<close>: the result always has at least one line.\<close>

fun splitLines :: "string \<Rightarrow> string list" where
  "splitLines [] = [[]]"
| "splitLines (c # cs) =
     (if c = CHR 0x0A then [] # splitLines cs
      else if c = CHR 0x0D \<and> take 1 cs = [CHR 0x0A] then [] # splitLines (drop 1 cs)
      else (case splitLines cs of
              [] \<Rightarrow> [[c]]
            | l # ls \<Rightarrow> (c # l) # ls))"

text \<open>\<open>/^\d(?:\d|_)*(?:\.\d(?:\d|_)*)?/\<close>: the matched text, if any.\<close>

definition numberRegex :: "string \<Rightarrow> string option" where
  "numberRegex s =
     (case s of
        [] \<Rightarrow> None
      | d # r \<Rightarrow>
          if isDigit d then
            (let a = takeWhile (\<lambda>c. isDigit c \<or> c = CHR ''_'') r;
                 r1 = dropWhile (\<lambda>c. isDigit c \<or> c = CHR ''_'') r
             in (case r1 of
                   p # d2 # r2 \<Rightarrow>
                     if p = CHR ''.'' \<and> isDigit d2
                     then Some (d # a @ p # d2 # takeWhile (\<lambda>c. isDigit c \<or> c = CHR ''_'') r2)
                     else Some (d # a)
                 | _ \<Rightarrow> Some (d # a)))
          else None)"

text \<open>
  \<open>/^'(?:[^'\\]|\\.)*'/\<close>. After the opening quote the repetition has one way to go
  at each character: a quote closes the literal, a backslash needs a following
  character that is no line terminator, any other character is taken alone.
\<close>

fun stringBody :: "string \<Rightarrow> string option" where
  "stringBody [] = None"
| "stringBody (c # cs) =
     (if c = quote then Some [c]
      else if c = CHR 0x5C then
        (case cs of
           [] \<Rightarrow> None
         | e # cs' \<Rightarrow>
             if isLineTerminator e then None
             else map_option (\<lambda>m. c # e # m) (stringBody cs'))
      else map_option (\<lambda>m. c # m) (stringBody cs))"

definition stringRegex :: "string \<Rightarrow> string option" where
  "stringRegex s =
     (case s of
        [] \<Rightarrow> None
      | c # cs \<Rightarrow> if c = quote then map_option (\<lambda>m. c # m) (stringBody cs) else None)"

text \<open>\<open>/^[a-z_]\w*/i\<close>\<close>

definition wordRegex :: "string \<Rightarrow> string option" where
  "wordRegex s =
     (case s of
        [] \<Rightarrow> None
      | c # cs \<Rightarrow>
          if isLetter c \<or> c = CHR ''_'' then Some (c # takeWhile isWordChar cs) else None)"

text \<open>
  \<open>/^is\s+(not|(?:(less|greater)\s+than))/\<close>: the whole match, the first group and
  the second group (undefined when the first alternative matched).
\<close>

definition comparisonRegex :: "string \<Rightarrow> (string \<times> string \<times> string option) option" where
  "comparisonRegex s =
     (if take 2 s = ''is'' then
        (let ws = takeWhile isSpace (drop 2 s);
             r = dropWhile isSpace (drop 2 s)
         in if ws = [] then None
            else if take 3 r = ''not'' then Some (''is'' @ ws @ ''not'', ''not'', None)
            else
              (case (if take 4 r = ''less'' then Some ''less''
                     else if take 7 r = ''greater'' then Some ''greater''
                     else None) of
                 None \<Rightarrow> None
               | Some w \<Rightarrow>
                   (let ws2 = takeWhile isSpace (drop (length w) r);
                        r2 = dropWhile isSpace (drop (length w) r)
                    in if ws2 \<noteq> [] \<and> take 4 r2 = ''than''
                       then Some (''is'' @ ws @ w @ ws2 @ ''than'', w @ ws2 @ ''than'', Some w)
                       else None)))
      else None)"

subsection \<open>The methods of the class\<close>

definition getIndent :: "string \<Rightarrow> nat" where
  "getIndent line = length (takeWhile (\<lambda>c. c = tab) line)"

text \<open>\<open>error\<close> pushes a diagnostic and returns the number of characters to skip.\<close>

definition error :: "string \<Rightarrow> string \<Rightarrow> nat \<Rightarrow> nat \<Rightarrow> Tokenizer \<Rightarrow> nat \<times> Tokenizer" where
  "error m lx lineIndex colIndex t =
     (length lx,
      t\<lparr>diagnostics := diagnostics t @
           [Diagnostic ERROR ''tokenizer'' m
              (Span (lineIndex, colIndex) (lineIndex, colIndex + length lx)) []]\<rparr>)"

definition addIndentTokens :: "nat \<Rightarrow> nat \<Rightarrow> Tokenizer \<Rightarrow> Tokenizer" where
  "addIndentTokens lineIndex ind t =
     (if ind > indent t then
        (let diff = ind - indent t
         in t\<lparr>tokens := tokens t @
                replicate diff (Token INDENT [tab] (Span (lineIndex, 0) (lineIndex, diff)))\<rparr>)
      else if ind < indent t then
        t\<lparr>tokens := tokens t @
             replicate (indent t - ind) (Token OUTDENT [] (Span (lineIndex, 0) (lineIndex, ind)))\<rparr>
      else t)"

definition matchNumber :: "string \<Rightarrow> nat \<Rightarrow> nat \<Rightarrow> Tokenizer \<Rightarrow> nat \<times> Tokenizer" where
  "matchNumber chars lineIndex colIndex t =
     (case numberRegex chars of
        Some numberMatch \<Rightarrow>
          (length numberMatch,
           t\<lparr>tokens := tokens t @
                [Token NUMBER numberMatch
                   (Span (lineIndex, colIndex) (lineIndex, colIndex + length numberMatch))]\<rparr>)
      | None \<Rightarrow> (0, t))"

definition matchString :: "string \<Rightarrow> nat \<Rightarrow> nat \<Rightarrow> Tokenizer \<Rightarrow> nat \<times> Tokenizer" where
  "matchString chars lineIndex colIndex t =
     (case stringRegex chars of
        Some stringMatch \<Rightarrow>
          (length stringMatch,
           t\<lparr>tokens := tokens t @
                [Token STRING stringMatch
                   (Span (lineIndex, colIndex) (lineIndex, colIndex + length stringMatch))]\<rparr>)
      | None \<Rightarrow> (0, t))"

definition matchComment :: "string \<Rightarrow> nat \<Rightarrow> nat \<Rightarrow> Tokenizer \<Rightarrow> nat \<times> Tokenizer" where
  "matchComment chars lineIndex colIndex t =
     (length chars,
      t\<lparr>comments := comments t @
           [Token COMMENT chars
              (Span (lineIndex, colIndex) (lineIndex, colIndex + length chars))]\<rparr>)"

definition thanMessage :: string where
  "thanMessage =
     [quote] @ ''than'' @ [quote] @ '' must come after '' @ [quote] @ ''is less'' @ [quote]
     @ '' or '' @ [quote] @ ''is greater'' @ [quote] @ ''. Make sure it's on the same line''"

definition isMessage :: "string \<Rightarrow> string" where
  "isMessage lx =
     [quote] @ lx @ [quote] @ '' must come after '' @ [quote] @ ''is'' @ [quote]
     @ ''. Make sure it's on the same line''"

definition unexpectedMessage :: "char \<Rightarrow> string" where
  "unexpectedMessage c = ''Unexpected token '' @ [quote] @ [c] @ [quote]"

text \<open>
  The \<open>switch\<close> on the operator of a matched comparison: \<open>operator\<close> is the second
  group if it is defined and the first group otherwise; the default case keeps the type.
\<close>

definition comparisonType :: "string \<Rightarrow> LexicalToken \<Rightarrow> LexicalToken" where
  "comparisonType operator ty =
     (if operator = ''not'' then IS_NOT
      else if operator = ''less'' then IS_LESS_THAN
      else if operator = ''greater'' then IS_GREATER_THAN
      else ty)"

definition matchWord ::
  "WordTokens \<Rightarrow> string \<Rightarrow> string \<Rightarrow> nat \<Rightarrow> nat \<Rightarrow> Tokenizer \<Rightarrow> nat \<times> Tokenizer" where
  "matchWord wt wordMatch chars lineIndex colIndex t =
     (let lx = wordMatch;
          ty = (case wt lx of Some k \<Rightarrow> k | None \<Rightarrow> IDENTIFIER)
      in if lx = ''less'' \<or> lx = ''greater'' \<or> lx = ''than'' then
           error (if lx = ''than'' then thanMessage else isMessage lx) lx lineIndex colIndex t
         else
           (let (lx2, ty2) =
                  (if wordMatch = ''is'' then
                     (case comparisonRegex chars of
                        Some (m0, m1, m2) \<Rightarrow>
                          (m0, comparisonType (case m2 of Some g \<Rightarrow> g | None \<Rightarrow> m1) ty)
                      | None \<Rightarrow> (lx, ty))
                   else (lx, ty))
            in (length lx2,
                t\<lparr>tokens := tokens t @
                     [Token ty2 lx2
                        (Span (lineIndex, colIndex) (lineIndex, colIndex + length lx2))]\<rparr>)))"

text \<open>
  One iteration of the \<open>while\<close> loop of \<open>scanLine\<close>, entered with
  \<open>colIndex < line.length\<close>: the new column and the new state.
\<close>

definition scanStep ::
  "CharTokens \<Rightarrow> WordTokens \<Rightarrow> string \<Rightarrow> nat \<Rightarrow> nat \<Rightarrow> Tokenizer \<Rightarrow> nat \<times> Tokenizer" where
  "scanStep ct wt line lineIndex colIndex t =
     (let c = line ! colIndex
      in case ct c of
           Some singleCharType \<Rightarrow>
             (colIndex + 1,
              t\<lparr>tokens := tokens t @
                   [Token singleCharType [c]
                      (Span (lineIndex, colIndex) (lineIndex, colIndex + 1))]\<rparr>)
         | None \<Rightarrow>
             (let remainingChars = drop colIndex line;
                  (toAdd, t1) =
                    (if isDigit c then matchNumber remainingChars lineIndex colIndex t
                     else if c = quote then matchString remainingChars lineIndex colIndex t
                     else if c = CHR ''#'' then matchComment remainingChars lineIndex colIndex t
                     else (case wordRegex remainingChars of
                             Some wordMatch \<Rightarrow>
                               matchWord wt wordMatch remainingChars lineIndex colIndex t
                           | None \<Rightarrow> (0, t)))
              in if toAdd > 0 then (colIndex + toAdd, t1)
                 else (let (n, t2) = error (unexpectedMessage c) [c] lineIndex colIndex t1
                       in (colIndex + n, t2))))"

lemma scanStep_progress: "colIndex < fst (scanStep ct wt line lineIndex colIndex t)"
  by (auto simp: scanStep_def error_def Let_def split: option.splits prod.splits)

function scanChars ::
  "CharTokens \<Rightarrow> WordTokens \<Rightarrow> string \<Rightarrow> nat \<Rightarrow> nat \<Rightarrow> Tokenizer \<Rightarrow> Tokenizer" where
  "scanChars ct wt line lineIndex colIndex t =
     (if colIndex < length line then
        (case scanStep ct wt line lineIndex colIndex t of
           (colIndex', t') \<Rightarrow> scanChars ct wt line lineIndex colIndex' t')
      else t)"
  by pat_completeness auto
termination
proof (relation "measure (\<lambda>(ct, wt, line, lineIndex, colIndex, t). length line - colIndex)")
  show "wf (measure (\<lambda>(ct, wt, line, lineIndex, colIndex, t). length line - colIndex))"
    by simp
next
  fix ct :: CharTokens and wt :: WordTokens and line :: string
    and lineIndex colIndex :: nat and t :: Tokenizer
    and colIndex' :: nat and t' :: Tokenizer
  assume lt: "colIndex < length line"
    and p: "(colIndex', t') = scanStep ct wt line lineIndex colIndex t"
  have "colIndex < fst (scanStep ct wt line lineIndex colIndex t)"
    by (rule scanStep_progress)
  with p have "colIndex < colIndex'"
    by (metis fst_conv)
  with lt show "((ct, wt, line, lineIndex, colIndex', t'), (ct, wt, line, lineIndex, colIndex, t))
      \<in> measure (\<lambda>(ct, wt, line, lineIndex, colIndex, t). length line - colIndex)"
    by simp
qed

definition scanLine :: "CharTokens \<Rightarrow> WordTokens \<Rightarrow> nat \<Rightarrow> Tokenizer \<Rightarrow> Tokenizer" where
  "scanLine ct wt lineIndex t =
     (let line = lines t ! lineIndex;
          trimmed = trimLeft line
      in if length trimmed = 0 then t
         else if hd trimmed = CHR ''#'' then
           t\<lparr>comments := comments t @
                [Token COMMENT trimmed
                   (Span (lineIndex, length line - length trimmed) (lineIndex, length line))]\<rparr>
         else
           (let ind = getIndent line;
                t1 = addIndentTokens lineIndex ind t;
                t2 = t1\<lparr>indent := ind\<rparr>;
                t3 = scanChars ct wt line lineIndex ind t2
            in t3\<lparr>tokens := tokens t3 @
                    [Token NEWLINE [CHR 0x0A]
                       (Span (lineIndex, length line) (lineIndex, length line + 1))]\<rparr>))"

text \<open>The constructor: the lines of the source and the empty collections.\<close>

definition newTokenizer :: "string \<Rightarrow> Tokenizer" where
  "newTokenizer src =
     \<lparr>lines = splitLines src, tokens = [], comments = [], diagnostics = [], indent = 0\<rparr>"

text \<open>
  \<open>tokenize\<close>: the loop over the line indices, the closing \<open>OUTDENT\<close> tokens and the
  \<open>EOF\<close> token. The returned state holds the three returned lists.
\<close>

definition scanLines :: "CharTokens \<Rightarrow> WordTokens \<Rightarrow> Tokenizer \<Rightarrow> Tokenizer" where
  "scanLines ct wt t = foldl (\<lambda>s i. scanLine ct wt i s) t [0..<length (lines t)]"

definition tokenize :: "CharTokens \<Rightarrow> WordTokens \<Rightarrow> string \<Rightarrow> Tokenizer" where
  "tokenize ct wt src =
     (let t1 = scanLines ct wt (newTokenizer src);
          n = length (lines t1);
          t2 = t1\<lparr>tokens := tokens t1 @
                  replicate (indent t1) (Token OUTDENT [] (Span (n - 1, 0) (n - 1, indent t1)))\<rparr>
      in t2\<lparr>tokens := tokens t2 @
              [Token EOF []
                 (Span (n - 1, length (lines t2 ! (n - 1)))
                       (n - 1, length (lines t2 ! (n - 1)) + 1))]\<rparr>)"

text \<open>
  Modelled from the spec: the tables \<open>CHAR_TOKENS\<close> and \<open>WORD_TOKENS\<close> are not part of
  the sources at hand. These two instances hold the single-character operators and
  punctuation and the reserved words that the specification's grammar names; they serve
  as concrete tables where a statement about all tables is instantiated.
\<close>

definition charTokens :: CharTokens where
  "charTokens = map_of
     [(CHR ''.'', DOT), (CHR ''<'', LT), (CHR ''>'', GT),
      (CHR ''('', L_PAR), (CHR '')'', R_PAR), (CHR ''['', L_SQB), (CHR '']'', R_SQB),
      (CHR ''{'', L_BRACE), (CHR ''}'', R_BRACE),
      (CHR '':'', COLON), (CHR '','', COMMA), (CHR ''='', EQUAL),
      (CHR ''+'', PLUS), (CHR ''-'', MINUS), (CHR ''*'', STAR), (CHR ''/'', SLASH),
      (CHR ''%'', PERCENT)]"

definition wordTokens :: WordTokens where
  "wordTokens = map_of
     [(''true'', TRUE), (''false'', FALSE), (''null'', NULL), (''this'', THIS),
      (''super'', SUPER), (''new'', NEW), (''async'', ASYNC), (''not'', NOT),
      (''and'', AND), (''or'', OR), (''is'', IS), (''instanceof'', INSTANCEOF),
      (''var'', VAR), (''if'', IF), (''else'', ELSE)]"

text \<open>
  The text of the source that a span covers: the span lies on one line of the source and
  within it.
\<close>

definition sourceText :: "string list \<Rightarrow> Span \<Rightarrow> string option" where
  "sourceText ls sp =
     (case sp of
        Span (l1, c1) (l2, c2) \<Rightarrow>
          if l1 = l2 \<and> l1 < length ls \<and> c1 \<le> c2 \<and> c2 \<le> length (ls ! l1)
          then Some (take (c2 - c1) (drop c1 (ls ! l1)))
          else None)"

text \<open>
  The tokens that \<open>addIndentTokens\<close> pushes when the indentation goes from \<open>old\<close> to
  \<open>ind\<close>, and the number of tokens of one type in a list.
\<close>

definition indentTokens :: "nat \<Rightarrow> nat \<Rightarrow> nat \<Rightarrow> Token list" where
  "indentTokens lineIndex old ind =
     (if ind > old
      then replicate (ind - old) (Token INDENT [tab] (Span (lineIndex, 0) (lineIndex, ind - old)))
      else replicate (old - ind) (Token OUTDENT [] (Span (lineIndex, 0) (lineIndex, ind))))"

definition countType :: "LexicalToken \<Rightarrow> Token list \<Rightarrow> nat" where
  "countType k ts = length (filter (\<lambda>x. type x = k) ts)"

text \<open>
  The rule that the lexeme of a token of the returned list follows, by the type of the
  token.
\<close>

definition lexemeRule :: "string list \<Rightarrow> Token \<Rightarrow> bool" where
  "lexemeRule ls x =
     (if type x = OUTDENT \<or> type x = EOF then lexeme x = []
      else if type x = INDENT then lexeme x = [tab]
      else if type x = NEWLINE then lexeme x = [CHR 0x0A]
      else sourceText ls (span x) = Some (lexeme x))"

section \<open>The parser\<close>

text \<open>
  Modelled from the spec: the node classes of \<open>../grammar\<close> are not part of the sources
  at hand. The constructors follow the node families of the specification, with the field
  order of the constructor calls that the sources show (\<open>NewExpression\<close>,
  \<open>VariableDeclaration\<close>, \<open>EmptyVariableDeclaration\<close>, \<open>MemberExpression\<close>); the last
  component of every node is its span. A \<open>Literal\<close> holds its token, which the tests of
  the repository read as \<open>value\<close>.
\<close>

datatype VariableType =
  VariableType (typeName: "Token list") (generics: "VariableType list") (typeSpan: Span)

datatype Node =
    Literal Token Span
  | Identifier Token Span
  | This Span
  | Super Span
  | WrappedExpression Node Span
  | UnaryExpression Token Node Span
  | BinaryExpression Node Token Node Span
  | AssignmentExpression Node Node Span
  | CallExpression Node "Node list" Span
  | IndexExpression Node Node Span
  | MemberExpression Node Token Span
  | NewExpression Node "VariableType list" "Node list" Span
  | InstanceofExpression Node VariableType Span
  | AsyncExpression Node Span
  | ArrayExpression "Node list" Span
  | ObjectExpression "(Token \<times> Node) list" Span
  | VariableDeclaration Token "VariableType option" Node Span
  | EmptyVariableDeclaration Token "VariableType option" Span
  | ExpressionStatement Node Span
  | Program "Node list" Span

fun nodeSpan :: "Node \<Rightarrow> Span" where
  "nodeSpan (Literal _ s) = s"
| "nodeSpan (Identifier _ s) = s"
| "nodeSpan (This s) = s"
| "nodeSpan (Super s) = s"
| "nodeSpan (WrappedExpression _ s) = s"
| "nodeSpan (UnaryExpression _ _ s) = s"
| "nodeSpan (BinaryExpression _ _ _ s) = s"
| "nodeSpan (AssignmentExpression _ _ s) = s"
| "nodeSpan (CallExpression _ _ s) = s"
| "nodeSpan (IndexExpression _ _ s) = s"
| "nodeSpan (MemberExpression _ _ s) = s"
| "nodeSpan (NewExpression _ _ _ s) = s"
| "nodeSpan (InstanceofExpression _ _ s) = s"
| "nodeSpan (AsyncExpression _ s) = s"
| "nodeSpan (ArrayExpression _ s) = s"
| "nodeSpan (ObjectExpression _ s) = s"
| "nodeSpan (VariableDeclaration _ _ _ s) = s"
| "nodeSpan (EmptyVariableDeclaration _ _ s) = s"
| "nodeSpan (ExpressionStatement _ s) = s"
| "nodeSpan (Program _ s) = s"


text \<open>
  Modelled from the spec: the class \<open>Parser\<close>, its cursor primitives, the precedence
  table and \<open>parsePrecedence\<close> (specification sections 4.2.1 to 4.2.7) are not part of
  the sources at hand; the sources hold two functions that use them, \<open>newExpr\<close> and
  \<open>variableDecl\<close>. The parser state is the token list, the cursor and the diagnostics
  recorded so far.
\<close>

record Parser =
  ptokens :: "Token list"
  current :: nat
  pdiagnostics :: "Diagnostic list"

text \<open>
  A thrown error carries the diagnostic and the state of the parser at the throw; the
  recursion of the expression parser is bounded by a fuel argument, and \<open>OutOfFuel\<close> is
  the result of a call that used it up.
\<close>

datatype ParseError = OutOfFuel | SyntaxError Diagnostic Parser

type_synonym 'a Parse = "ParseError + 'a \<times> Parser"

definition andThen :: "'a Parse \<Rightarrow> ('a \<Rightarrow> Parser \<Rightarrow> 'b Parse) \<Rightarrow> 'b Parse" where
  "andThen r f = (case r of Inl e \<Rightarrow> Inl e | Inr (x, p) \<Rightarrow> f x p)"

type_synonym Precedence = nat

definition OP1 :: Precedence where "OP1 = 1"
definition OP2 :: Precedence where "OP2 = 2"
definition OP3 :: Precedence where "OP3 = 3"
definition OP4 :: Precedence where "OP4 = 4"
definition OP5 :: Precedence where "OP5 = 5"
definition OP6 :: Precedence where "OP6 = 6"
definition OP7 :: Precedence where "OP7 = 7"
definition OP8 :: Precedence where "OP8 = 8"
definition OP9 :: Precedence where "OP9 = 9"
definition OP10 :: Precedence where "OP10 = 10"
definition OP11 :: Precedence where "OP11 = 11"
definition OP12 :: Precedence where "OP12 = 12"

text \<open>
  Modelled from the spec: \<open>parser.expression\<close>, which \<open>variableDecl\<close> of the sources
  calls, parses an expression from \<open>OP1\<close> (section 4.2.5), that is with every infix form
  of the ladder admitted: the level it passes on is the one below \<open>OP1\<close>.
\<close>

definition lowest :: Precedence where "lowest = 0"

text \<open>
  Modelled from the spec: the precedence ladder of section 4.2.2, as the precedence of a
  token as an infix form.
\<close>

definition infixPrecedence :: "LexicalToken \<Rightarrow> Precedence option" where
  "infixPrecedence k =
     (if k = EQUAL then Some OP1
      else if k = OR then Some OP2
      else if k = AND then Some OP3
      else if k = EQUAL_EQUAL \<or> k = BANG_EQUAL \<or> k = IS \<or> k = IS_NOT then Some OP4
      else if k = LT \<or> k = LT_EQUAL \<or> k = GT \<or> k = GT_EQUAL
              \<or> k = IS_LESS_THAN \<or> k = IS_GREATER_THAN then Some OP5
      else if k = PLUS \<or> k = MINUS then Some OP6
      else if k = STAR \<or> k = SLASH \<or> k = PERCENT then Some OP7
      else if k = STAR_STAR then Some OP8
      else if k = INSTANCEOF then Some OP10
      else if k = L_PAR \<or> k = L_SQB \<or> k = DOT then Some OP11
      else None)"

text \<open>Modelled from the spec: the token types that start a prefix form (section 4.2.3).\<close>

definition hasPrefixRule :: "LexicalToken \<Rightarrow> bool" where
  "hasPrefixRule k =
     (k = NUMBER \<or> k = STRING \<or> k = TRUE \<or> k = FALSE \<or> k = NULL \<or> k = IDENTIFIER
      \<or> k = THIS \<or> k = SUPER \<or> k = L_PAR \<or> k = L_SQB \<or> k = L_BRACE \<or> k = NEW
      \<or> k = ASYNC \<or> k = MINUS \<or> k = NOT)"

text \<open>
  Modelled from the spec: the cursor of the parser (\<open>peek\<close>, \<open>previous\<close>,
  \<open>advance\<close>, \<open>match\<close>, named as the sources call them). The token list ends in
  \<open>EOF\<close>; past the end \<open>peek\<close> stays on the last token, and on the \<open>EOF\<close> token
  \<open>advance\<close> does not move.
\<close>

definition peek :: "Parser \<Rightarrow> Token" where
  "peek p =
     (if current p < length (ptokens p) then ptokens p ! current p
      else if ptokens p = [] then Token EOF [] (Span (0, 0) (0, 0))
      else last (ptokens p))"

definition previous :: "Parser \<Rightarrow> Token" where
  "previous p =
     (if 0 < current p \<and> current p - 1 < length (ptokens p) then ptokens p ! (current p - 1)
      else peek p)"

definition isAtEnd :: "Parser \<Rightarrow> bool" where
  "isAtEnd p = (type (peek p) = EOF)"

definition advance :: "Parser \<Rightarrow> Parser" where
  "advance p = (if isAtEnd p then p else p\<lparr>current := current p + 1\<rparr>)"

definition match :: "LexicalToken \<Rightarrow> Parser \<Rightarrow> bool \<times> Parser" where
  "match k p = (if type (peek p) = k then (True, advance p) else (False, p))"

text \<open>
  Modelled from the spec: \<open>ignoreNewline\<close> skips any run of \<open>NEWLINE\<close> tokens at the
  cursor (section 4.2.1).
\<close>

definition ignoreNewline :: "Parser \<Rightarrow> Parser" where
  "ignoreNewline p =
     p\<lparr>current := current p
          + length (takeWhile (\<lambda>t. type t = NEWLINE) (drop (current p) (ptokens p)))\<rparr>"

text \<open>
  Modelled from the spec: \<open>matchIgnoreNewline\<close> looks past a run of \<open>NEWLINE\<close> tokens;
  if the token after it has the given type, the run and the token are consumed, and
  otherwise the cursor stays (section 4.2.1).
\<close>

definition matchIgnoreNewline :: "LexicalToken \<Rightarrow> Parser \<Rightarrow> bool \<times> Parser" where
  "matchIgnoreNewline k p =
     (if type (peek (ignoreNewline p)) = k then (True, advance (ignoreNewline p))
      else (False, p))"

text \<open>
  Modelled from the spec: an error at the token under the cursor is a diagnostic at the
  span of the offending token with the expected-token message and the \<open>info\<close>
  annotations of the handler (section 4.2.7); \<open>consume\<close> returns the token of the
  expected type or raises that error.
\<close>

definition syntaxError :: "string \<Rightarrow> (string \<times> Span) list \<Rightarrow> Parser \<Rightarrow> ParseError" where
  "syntaxError m infos p = SyntaxError (Diagnostic ERROR ''parser'' m (span (peek p)) infos) p"

definition consume ::
  "LexicalToken \<Rightarrow> string \<Rightarrow> (string \<times> Span) list \<Rightarrow> Parser \<Rightarrow> Token Parse" where
  "consume k m infos p =
     (if type (peek p) = k then Inr (peek p, advance p) else Inl (syntaxError m infos p))"

text \<open>
  Modelled from the spec: the type grammar of section 4.2.6,
  \<open>IDENT ('.' IDENT)* ('<' TypeList '>')?\<close>, behind \<open>matchTypeDecl\<close> and
  \<open>matchGenericArgs\<close>. \<open>matchGenericArgs\<close> is entered after the \<open><\<close>, as \<open>newExpr\<close>
  calls it, and consumes the closing \<open>>\<close>.
\<close>

fun typeNames :: "nat \<Rightarrow> Token list \<Rightarrow> Parser \<Rightarrow> (Token list) Parse" where
  "typeNames 0 acc p = Inl OutOfFuel"
| "typeNames (Suc n) acc p =
     (case match DOT p of
        (True, p1) \<Rightarrow>
          andThen (consume IDENTIFIER ''Expected an identifier after the dot'' [] p1)
            (\<lambda>name p2. typeNames n (acc @ [name]) p2)
      | (False, p1) \<Rightarrow> Inr (acc, p))"

fun matchTypeDecl :: "nat \<Rightarrow> Parser \<Rightarrow> VariableType Parse"
  and matchGenericArgs :: "nat \<Rightarrow> Parser \<Rightarrow> (VariableType list) Parse" where
  "matchTypeDecl 0 p = Inl OutOfFuel"
| "matchTypeDecl (Suc n) p =
     andThen (consume IDENTIFIER ''Expected a type'' [] p)
       (\<lambda>name p1.
          andThen (typeNames n [name] p1)
            (\<lambda>names p2.
               case match LT p2 of
                 (True, p3) \<Rightarrow>
                   andThen (matchGenericArgs n p3)
                     (\<lambda>args p4.
                        Inr (VariableType names args
                               (Span (start (span name)) (finish (span (previous p4)))), p4))
               | (False, p3) \<Rightarrow>
                   Inr (VariableType names []
                          (Span (start (span name)) (finish (span (previous p2)))), p2)))"
| "matchGenericArgs 0 p = Inl OutOfFuel"
| "matchGenericArgs (Suc n) p =
     andThen (matchTypeDecl n (ignoreNewline p))
       (\<lambda>ty p1.
          case matchIgnoreNewline COMMA p1 of
            (True, p2) \<Rightarrow>
              andThen (matchGenericArgs n p2) (\<lambda>tys p3. Inr (ty # tys, p3))
          | (False, p2) \<Rightarrow>
              andThen (consume GT ''Expected a closing angle bracket'' [] (ignoreNewline p1))
                (\<lambda>gt p3. Inr ([ty], p3)))"

text \<open>
  Modelled from the spec: \<open>memberExpr\<close> (section 4.2.4). After the dot an
  \<open>IDENTIFIER\<close> is expected; the node spans from the start of the object to the end of
  the property, as in the loop of the earlier \<open>new_\<close> of the sources.
\<close>

definition memberExpr :: "Parser \<Rightarrow> Node \<Rightarrow> Token \<Rightarrow> Node Parse" where
  "memberExpr p object dot =
     andThen (consume IDENTIFIER ''Expected identifier'' [] p)
       (\<lambda>property p1.
          Inr (MemberExpression object property
                 (Span (start (nodeSpan object)) (finish (span property))), p1))"

text \<open>
  From the sources: the loop
  \<open>while (parser.match(LexicalToken.DOT)) object = memberExpr(...)\<close> of \<open>newExpr\<close>,
  bounded by fuel.
\<close>

fun newMembers :: "nat \<Rightarrow> Node \<Rightarrow> Parser \<Rightarrow> Node Parse" where
  "newMembers 0 object p = Inl OutOfFuel"
| "newMembers (Suc n) object p =
     (case match DOT p of
        (True, p1) \<Rightarrow>
          andThen (memberExpr p1 object (previous p1)) (\<lambda>object' p2. newMembers n object' p2)
      | (False, p1) \<Rightarrow> Inr (object, p))"

text \<open>
  Modelled from the spec: the left-hand sides that \<open>=\<close> accepts (section 4.2.4). An
  identifier is the \<open>Literal\<close> of an \<open>IDENTIFIER\<close> token, see \<open>prefixExpr\<close>.
\<close>

fun isAssignable :: "Node \<Rightarrow> bool" where
  "isAssignable (Identifier _ _) = True"
| "isAssignable (Literal tok _) = (type tok = IDENTIFIER)"
| "isAssignable (MemberExpression _ _ _) = True"
| "isAssignable (IndexExpression _ _ _) = True"
| "isAssignable _ = False"


text \<open>
  Modelled from the spec: the expression lists and the object literal of sections 4.2.3
  and 4.2.4. The functions of the expression parser take the expression parser of the
  enclosing call, \<open>pp\<close>, as their first argument: it stands for
  \<open>parser.parsePrecedence\<close>. The loops are bounded by a fuel argument.
  \<open>matchExpressionList\<close> is entered after the opening bracket, as \<open>newExpr\<close> calls it;
  it parses expressions separated by commas and consumes the closing token.
\<close>

type_synonym PrecedenceParser =
  "Precedence \<Rightarrow> string \<Rightarrow> (string \<times> Span) list \<Rightarrow> Parser \<Rightarrow> Node Parse"

definition expression ::
  "PrecedenceParser \<Rightarrow> string \<Rightarrow> (string \<times> Span) list \<Rightarrow> Parser \<Rightarrow> Node Parse" where
  "expression pp m infos p = pp lowest m infos p"

fun expressionListRest ::
  "PrecedenceParser \<Rightarrow> nat \<Rightarrow> LexicalToken \<Rightarrow> Parser \<Rightarrow> (Node list) Parse" where
  "expressionListRest pp 0 closing p = Inl OutOfFuel"
| "expressionListRest pp (Suc n) closing p =
     andThen (expression pp ''Expected an expression'' [] p)
       (\<lambda>e p1.
          case matchIgnoreNewline COMMA p1 of
            (True, p2) \<Rightarrow>
              andThen (expressionListRest pp n closing (ignoreNewline p2))
                (\<lambda>es p3. Inr (e # es, p3))
          | (False, p2) \<Rightarrow>
              andThen (consume closing ''Expected the end of the list'' [] (ignoreNewline p1))
                (\<lambda>close p3. Inr ([e], p3)))"

definition matchExpressionList ::
  "PrecedenceParser \<Rightarrow> nat \<Rightarrow> LexicalToken \<Rightarrow> Parser \<Rightarrow> (Node list) Parse" where
  "matchExpressionList pp n closing p =
     (case match closing (ignoreNewline p) of
        (True, p1) \<Rightarrow> Inr ([], p1)
      | (False, p1) \<Rightarrow> expressionListRest pp n closing p1)"

fun objectProps ::
  "PrecedenceParser \<Rightarrow> nat \<Rightarrow> Parser \<Rightarrow> ((Token \<times> Node) list) Parse" where
  "objectProps pp 0 p = Inl OutOfFuel"
| "objectProps pp (Suc n) p =
     (case match R_BRACE p of
        (True, p1) \<Rightarrow> Inr ([], p1)
      | (False, p1) \<Rightarrow>
          andThen (consume IDENTIFIER ''Expected an identifier'' [] p)
            (\<lambda>key p2.
               andThen (consume COLON ''Expected a colon'' [] (ignoreNewline p2))
                 (\<lambda>colon p3.
                    andThen (expression pp ''Expected an expression'' [] (ignoreNewline p3))
                      (\<lambda>v p4.
                         case matchIgnoreNewline COMMA p4 of
                           (True, p5) \<Rightarrow>
                             andThen (objectProps pp n (ignoreNewline p5))
                               (\<lambda>props p6. Inr ((key, v) # props, p6))
                         | (False, p5) \<Rightarrow>
                             andThen (consume R_BRACE ''Expected a closing brace'' []
                                        (ignoreNewline p4))
                               (\<lambda>close p6. Inr ([(key, v)], p6))))))"

text \<open>
  From the sources: \<open>newExpr\<close>. \<open>prefix\<close> is the \<open>new\<close> token, already consumed. The
  two \<open>info\<close> handlers are the annotations that the error carries.
\<close>

definition newExpr :: "PrecedenceParser \<Rightarrow> nat \<Rightarrow> Token \<Rightarrow> Parser \<Rightarrow> Node Parse" where
  "newExpr pp n prefix p =
     andThen (pp OP11 (''Expected an expression after '' @ [CHR 0x27] @ ''new'' @ [CHR 0x27])
                [(''Add an expression after this new'', span prefix)] (ignoreNewline p))
       (\<lambda>object0 p1.
          andThen (newMembers n object0 (ignoreNewline p1))
            (\<lambda>object p2.
               andThen
                 (case match LT (ignoreNewline p2) of
                    (True, p3) \<Rightarrow>
                      andThen (matchGenericArgs n p3) (\<lambda>args p4. Inr (args, ignoreNewline p4))
                  | (False, p3) \<Rightarrow> Inr ([], p3))
                 (\<lambda>genericArgs p5.
                    andThen (consume L_PAR
                               (''Expected '' @ [CHR 0x27] @ ''('' @ [CHR 0x27] @ '' after the class'')
                               [(''Add a '' @ [CHR 0x27] @ ''('' @ [CHR 0x27] @ '' after this class'',
                                 nodeSpan object)] p5)
                      (\<lambda>lpar p6.
                         andThen (matchExpressionList pp n R_PAR p6)
                           (\<lambda>params p7.
                              Inr (NewExpression object genericArgs params
                                     (Span (start (span prefix)) (finish (span (previous p7)))),
                                   p7))))))"

text \<open>
  Modelled from the spec: the prefix forms of section 4.2.3; \<open>tok\<close> is the token that
  starts the form, already consumed. One form follows the tests of the repository and not
  the wording of the specification: \<open>call.test.ts\<close> asserts, three times, that the
  callee \<open>fn\<close> of a call is a \<open>Literal\<close> of type \<open>LITERAL\<close> whose \<open>value\<close> is the
  token with lexeme \<open>fn\<close>; an \<open>IDENTIFIER\<close> token therefore yields a \<open>Literal\<close>, as
  the literal tokens do.
\<close>

definition prefixExpr :: "PrecedenceParser \<Rightarrow> nat \<Rightarrow> Token \<Rightarrow> Parser \<Rightarrow> Node Parse" where
  "prefixExpr pp n tok p =
     (if type tok = NUMBER \<or> type tok = STRING \<or> type tok = TRUE \<or> type tok = FALSE
         \<or> type tok = NULL \<or> type tok = IDENTIFIER then Inr (Literal tok (span tok), p)
      else if type tok = THIS then Inr (This (span tok), p)
      else if type tok = SUPER then Inr (Super (span tok), p)
      else if type tok = L_PAR then
        andThen (expression pp ''Expected an expression'' [] (ignoreNewline p))
          (\<lambda>e p1.
             andThen (consume R_PAR ''Expected a closing parenthesis'' [] (ignoreNewline p1))
               (\<lambda>close p2.
                  Inr (WrappedExpression e (Span (start (span tok)) (finish (span close))), p2)))
      else if type tok = L_SQB then
        andThen (matchExpressionList pp n R_SQB p)
          (\<lambda>elems p1.
             Inr (ArrayExpression elems
                    (Span (start (span tok)) (finish (span (previous p1)))), p1))
      else if type tok = L_BRACE then
        andThen (objectProps pp n (ignoreNewline p))
          (\<lambda>props p1.
             Inr (ObjectExpression props
                    (Span (start (span tok)) (finish (span (previous p1)))), p1))
      else if type tok = NEW then newExpr pp n tok p
      else if type tok = ASYNC then
        andThen (pp OP11 ''Expected an expression'' [] p)
          (\<lambda>e p1.
             Inr (AsyncExpression e (Span (start (span tok)) (finish (nodeSpan e))), p1))
      else
        andThen (pp OP9 ''Expected an expression'' [] p)
          (\<lambda>e p1.
             Inr (UnaryExpression tok e (Span (start (span tok)) (finish (nodeSpan e))), p1)))"

text \<open>
  Modelled from the spec: the infix forms of section 4.2.4 and the loop over them;
  \<open>tok\<close> is the operator token, already consumed, and \<open>prec\<close> its precedence. Binary
  operators bind to the left, \<open>**\<close> and \<open>=\<close> to the right; a wrong left-hand side of
  \<open>=\<close> is recorded and the assignment node is still produced.

  The loop departs from the wording of section 4.2.2 where the sources force it.
  \<open>newExpr\<close> calls \<open>parsePrecedence(Precedence.OP11)\<close> and then consumes the member
  accesses and the opening parenthesis itself; both are infix forms of precedence
  \<open>OP11\<close>, so \<open>parsePrecedence\<close> must leave the infix forms of the requested level
  alone. The loop therefore takes the infix forms whose precedence is strictly above the
  level; the right operand of a left-associative operator is parsed at the level of the
  operator, the one of a right-associative operator one level below.
\<close>

definition infixExpr ::
  "PrecedenceParser \<Rightarrow> nat \<Rightarrow> Precedence \<Rightarrow> Node \<Rightarrow> Token \<Rightarrow> Parser \<Rightarrow> Node Parse" where
  "infixExpr pp n prec left tok p =
     (if type tok = L_PAR then
        andThen (matchExpressionList pp n R_PAR p)
          (\<lambda>params p1.
             Inr (CallExpression left params
                    (Span (start (nodeSpan left)) (finish (span (previous p1)))), p1))
      else if type tok = L_SQB then
        andThen (expression pp ''Expected an expression'' [] (ignoreNewline p))
          (\<lambda>index p1.
             andThen (consume R_SQB ''Expected a closing bracket'' [] (ignoreNewline p1))
               (\<lambda>close p2.
                  Inr (IndexExpression left index
                         (Span (start (nodeSpan left)) (finish (span close))), p2)))
      else if type tok = DOT then memberExpr p left tok
      else if type tok = INSTANCEOF then
        andThen (matchTypeDecl n p)
          (\<lambda>ty p1.
             Inr (InstanceofExpression left ty
                    (Span (start (nodeSpan left)) (finish (typeSpan ty))), p1))
      else if type tok = EQUAL then
        andThen (expression pp ''Expected an expression'' [] (ignoreNewline p))
          (\<lambda>right p1.
             Inr (AssignmentExpression left right
                    (Span (start (nodeSpan left)) (finish (nodeSpan right))),
                  if isAssignable left then p1
                  else p1\<lparr>pdiagnostics := pdiagnostics p1 @
                         [Diagnostic ERROR ''parser'' ''Invalid left-hand side of the assignment''
                            (nodeSpan left) []]\<rparr>))
      else
        andThen (pp (if type tok = STAR_STAR then prec - 1 else prec)
                   ''Expected an expression'' [] (ignoreNewline p))
          (\<lambda>right p1.
             Inr (BinaryExpression left tok right
                    (Span (start (nodeSpan left)) (finish (nodeSpan right))), p1)))"

fun infixLoop ::
  "PrecedenceParser \<Rightarrow> nat \<Rightarrow> Precedence \<Rightarrow> Node \<Rightarrow> Parser \<Rightarrow> Node Parse" where
  "infixLoop pp 0 lvl left p = Inl OutOfFuel"
| "infixLoop pp (Suc n) lvl left p =
     (case infixPrecedence (type (peek p)) of
        None \<Rightarrow> Inr (left, p)
      | Some prec \<Rightarrow>
          if lvl < prec then
            andThen (infixExpr pp n prec left (peek p) (advance p))
              (\<lambda>node p1. infixLoop pp n lvl node p1)
          else Inr (left, p))"

text \<open>
  Modelled from the spec: \<open>parsePrecedence\<close> (section 4.2.2), here with \<open>n\<close> units of
  fuel: a prefix form, then the infix forms whose precedence is above \<open>lvl\<close>. A token
  that starts no prefix form is the error with the message and the annotations of the
  caller.
\<close>

primrec parsePrecedence :: "nat \<Rightarrow> PrecedenceParser" where
  "parsePrecedence 0 = (\<lambda>lvl m infos p. Inl OutOfFuel)"
| "parsePrecedence (Suc n) =
     (\<lambda>lvl m infos p.
        if hasPrefixRule (type (peek p)) then
          andThen (prefixExpr (parsePrecedence n) n (peek p) (advance p))
            (\<lambda>left p1. infixLoop (parsePrecedence n) n lvl left p1)
        else Inl (syntaxError m infos p))"


text \<open>
  From the sources: \<open>variableDecl\<close>; \<open>parser.expression\<close> is \<open>parsePrecedence\<close> at the
  lowest precedence. The \<open>info\<close> handler of the expression reads \<open>parser.previous()\<close>
  when the error is raised, which is at the first token of the expression.
\<close>

definition variableDecl :: "PrecedenceParser \<Rightarrow> nat \<Rightarrow> Parser \<Rightarrow> Node Parse" where
  "variableDecl pp n p =
     andThen (consume IDENTIFIER
                (''Expected an identifier after '' @ [CHR 0x22] @ ''var'' @ [CHR 0x22]) []
                (ignoreNewline p))
       (\<lambda>identifier p1.
          andThen
            (case matchIgnoreNewline COLON p1 of
               (True, p2) \<Rightarrow>
                 andThen (matchTypeDecl n (ignoreNewline p2)) (\<lambda>ty p3. Inr (Some ty, p3))
             | (False, p2) \<Rightarrow> Inr (None, p1))
            (\<lambda>variableType p4.
               case matchIgnoreNewline EQUAL p4 of
                 (True, p5) \<Rightarrow>
                   andThen (expression pp
                              (''Expected an expression after '' @ [CHR 0x27] @ ''='' @ [CHR 0x27])
                              [(''Add an expression after this ='',
                                span (previous (ignoreNewline p5)))]
                              (ignoreNewline p5))
                     (\<lambda>expr p6.
                        Inr (VariableDeclaration identifier variableType expr
                               (Span (start (span (peek p))) (finish (span (previous p6)))), p6))
               | (False, p5) \<Rightarrow>
                   Inr (EmptyVariableDeclaration identifier variableType
                          (Span (start (span (peek p))) (finish (span (previous p4)))), p4)))"

text \<open>
  Modelled from the spec: the statement level (sections 4.2.5 and 4.2.7) is not part of
  the sources at hand. This fragment holds the two statement forms without a block: the
  variable declaration and the expression statement, an expression parsed from \<open>OP1\<close>
  by \<open>expression\<close>.
  A \<open>NEWLINE\<close> or the end of the input ends a statement. On an error the diagnostic is
  recorded, the cursor advances to the next \<open>NEWLINE\<close>, and parsing resumes with the next
  statement; the nodes of the failed statement are dropped.
\<close>

definition statement :: "nat \<Rightarrow> Parser \<Rightarrow> Node Parse" where
  "statement n p =
     andThen
       (if type (peek p) = VAR then variableDecl (parsePrecedence n) n (advance p)
        else andThen (expression (parsePrecedence n) ''Expected an expression'' [] p)
               (\<lambda>e p1. Inr (ExpressionStatement e (nodeSpan e), p1)))
       (\<lambda>node p1.
          if type (peek p1) = NEWLINE then Inr (node, advance p1)
          else if isAtEnd p1 then Inr (node, p1)
          else Inl (syntaxError ''Expected a newline after the statement'' [] p1))"

definition sync :: "Parser \<Rightarrow> Parser" where
  "sync p =
     p\<lparr>current := current p
          + length (takeWhile (\<lambda>t. type t \<noteq> NEWLINE \<and> type t \<noteq> EOF)
                      (drop (current p) (ptokens p)))\<rparr>"

fun programLoop :: "nat \<Rightarrow> Node list \<Rightarrow> Parser \<Rightarrow> (Node list) Parse" where
  "programLoop 0 body p = Inl OutOfFuel"
| "programLoop (Suc n) body p =
     (if isAtEnd (ignoreNewline p) then Inr (body, ignoreNewline p)
      else
        (case statement n (ignoreNewline p) of
           Inr (node, p1) \<Rightarrow> programLoop n (body @ [node]) p1
         | Inl OutOfFuel \<Rightarrow> Inl OutOfFuel
         | Inl (SyntaxError d pe) \<Rightarrow>
             programLoop n body ((sync pe)\<lparr>pdiagnostics := pdiagnostics pe @ [d]\<rparr>)))"

text \<open>
  Modelled from the spec: \<open>parse\<close> returns the program and the diagnostics (section
  4.2); the result is \<open>None\<close> when the fuel, a multiple of the number of tokens, does
  not suffice.
\<close>

definition parseWithFuel :: "nat \<Rightarrow> Token list \<Rightarrow> (Node \<times> Diagnostic list) option" where
  "parseWithFuel n ts =
     (case programLoop n [] \<lparr>ptokens = ts, current = 0, pdiagnostics = []\<rparr> of
        Inr (body, p) \<Rightarrow>
          Some (Program body
                  (Span (start (span (peek \<lparr>ptokens = ts, current = 0, pdiagnostics = []\<rparr>)))
                        (finish (span (peek p)))),
                pdiagnostics p)
      | Inl e \<Rightarrow> None)"

definition parse :: "Token list \<Rightarrow> (Node \<times> Diagnostic list) option" where
  "parse ts = parseWithFuel (8 * length ts + 8) ts"


section \<open>The linter rule declarations-in-class\<close>

text \<open>
  Modelled from the spec: the class \<open>ClassDeclaration\<close> is not part of the sources at
  hand. Of the class node the rule reads the two bodies, and of an entry of a body its
  \<open>value\<close>, the field \<open>propValue\<close> here.
\<close>

record ClassProp =
  propValue :: Node

record ClassDeclaration =
  staticBody :: "ClassProp list"
  instanceBody :: "ClassProp list"

text \<open>
  Modelled from the spec: \<open>report(message, span)\<close> is bound by the linter, which is not
  part of the sources at hand; it records a diagnostic tagged \<open>linter\<close> (section 4.3.1),
  here with the level that the rule declares, \<open>Level.ERROR\<close>.
\<close>

definition report :: "string \<Rightarrow> Span \<Rightarrow> Diagnostic list \<Rightarrow> Diagnostic list" where
  "report m sp reports = reports @ [Diagnostic ERROR ''linter'' m sp []]"

text \<open>
  From the sources: the rule. The callback registered for \<open>ClassDeclaration\<close> visits the
  values of the entries of \<open>staticBody\<close> and then of \<open>instanceBody\<close>; \<open>checkNode\<close>
  reports a node that is no declaration. \<open>grammar.isDeclaration\<close> is not part of the
  sources at hand and is the parameter \<open>isDeclaration\<close>.
\<close>

definition checkNode :: "(Node \<Rightarrow> bool) \<Rightarrow> Node \<Rightarrow> Diagnostic list \<Rightarrow> Diagnostic list" where
  "checkNode isDeclaration node reports =
     (if \<not> isDeclaration node
      then report ''You can only put declarations in a class body'' (nodeSpan node) reports
      else reports)"

definition declarationsInClass ::
  "(Node \<Rightarrow> bool) \<Rightarrow> ClassDeclaration \<Rightarrow> Diagnostic list \<Rightarrow> Diagnostic list" where
  "declarationsInClass isDeclaration node reports =
     fold (\<lambda>prop. checkNode isDeclaration (propValue prop)) (instanceBody node)
       (fold (\<lambda>prop. checkNode isDeclaration (propValue prop)) (staticBody node) reports)"

text \<open>
  A chain of member accesses on a root expression, as the loop of \<open>newExpr\<close> builds it,
  and the shape of an object that is an identifier or a chain of member accesses on an
  identifier; an identifier is an \<open>Identifier\<close> node or the \<open>Literal\<close> of an
  \<open>IDENTIFIER\<close> token.
\<close>

definition memberChain :: "Node \<Rightarrow> Token list \<Rightarrow> Node" where
  "memberChain root props =
     foldl (\<lambda>object property.
              MemberExpression object property
                (Span (start (nodeSpan object)) (finish (span property))))
       root props"

fun isIdentifierChain :: "Node \<Rightarrow> bool" where
  "isIdentifierChain (Identifier _ _) = True"
| "isIdentifierChain (Literal tok _) = (type tok = IDENTIFIER)"
| "isIdentifierChain (MemberExpression object _ _) = isIdentifierChain object"
| "isIdentifierChain _ = False"


text \<open>
  The identifiers of the pairs \<open>.identifier\<close> at the head of a token list: the property
  tokens that the loop of \<open>newExpr\<close> consumes from the cursor on, and the state after
  them. \<open>newGenerics\<close> names the step of \<open>newExpr\<close> between that loop and the opening
  parenthesis: the optional generic arguments.
\<close>

fun dotIdents :: "Token list \<Rightarrow> Token list" where
  "dotIdents (d # i # rest) =
     (if type d = DOT \<and> type i = IDENTIFIER then i # dotIdents rest else [])"
| "dotIdents _ = []"

definition memberTokens :: "Parser \<Rightarrow> Token list" where
  "memberTokens p = dotIdents (drop (current p) (ptokens p))"

definition afterMembers :: "Parser \<Rightarrow> Parser" where
  "afterMembers p = p\<lparr>current := current p + 2 * length (memberTokens p)\<rparr>"

definition newGenerics :: "nat \<Rightarrow> Parser \<Rightarrow> (VariableType list) Parse" where
  "newGenerics n p =
     (case match LT (ignoreNewline p) of
        (True, p3) \<Rightarrow>
          andThen (matchGenericArgs n p3) (\<lambda>args p4. Inr (args, ignoreNewline p4))
      | (False, p3) \<Rightarrow> Inr ([], p3))"

section \<open>Properties of the regular expressions and of the scanning loop\<close>

declare scanChars.simps [simp del]

lemma scanChars_step:
  "colIndex < length line \<Longrightarrow>
   scanChars ct wt line lineIndex colIndex t =
     scanChars ct wt line lineIndex (fst (scanStep ct wt line lineIndex colIndex t))
       (snd (scanStep ct wt line lineIndex colIndex t))"
  by (subst scanChars.simps) (simp add: case_prod_beta)

lemma scanChars_done:
  "\<not> colIndex < length line \<Longrightarrow> scanChars ct wt line lineIndex colIndex t = t"
  by (subst scanChars.simps) simp

lemma take_eq_append: "take n r = w \<Longrightarrow> r = w @ drop n r"
  by (metis append_take_drop_id)

lemma takeWhile_prefix: "\<exists>r. xs = takeWhile P xs @ r"
  by (metis takeWhile_dropWhile_id)

lemma numberRegex_prefix:
  assumes "numberRegex s = Some m"
  shows "\<exists>r. s = m @ r"
proof (cases s)
  case Nil
  with assms show ?thesis by (simp add: numberRegex_def)
next
  case (Cons d r)
  let ?Q = "\<lambda>c. isDigit c \<or> c = CHR ''_''"
  have split1: "r = takeWhile ?Q r @ dropWhile ?Q r"
    by simp
  show ?thesis
  proof (cases "\<exists>p d2 r2. dropWhile ?Q r = p # d2 # r2 \<and> p = CHR ''.'' \<and> isDigit d2")
    case True
    then obtain p d2 r2 where r1: "dropWhile ?Q r = p # d2 # r2" and ok: "p = CHR ''.''" "isDigit d2"
      by blast
    from assms Cons r1 ok have m: "m = d # takeWhile ?Q r @ p # d2 # takeWhile ?Q r2"
      by (simp add: numberRegex_def Let_def split: if_splits)
    have "r2 = takeWhile ?Q r2 @ dropWhile ?Q r2" by simp
    with split1 r1 have "s = m @ dropWhile ?Q r2"
      unfolding m Cons by (metis append.assoc append_Cons)
    then show ?thesis ..
  next
    case False
    with assms Cons have m: "m = d # takeWhile ?Q r"
      by (auto simp: numberRegex_def Let_def split: if_splits list.splits)
    have "s = m @ dropWhile ?Q r"
      unfolding m Cons by simp
    then show ?thesis ..
  qed
qed

lemma stringBody_prefix: "stringBody s = Some m \<Longrightarrow> \<exists>r. s = m @ r"
proof (induction s arbitrary: m rule: stringBody.induct)
  case 1
  then show ?case by simp
next
  case (2 c cs)
  then show ?case
    by (fastforce split: if_splits list.splits)
qed

lemma stringRegex_prefix: "stringRegex s = Some m \<Longrightarrow> \<exists>r. s = m @ r"
  unfolding stringRegex_def
  by (auto split: list.splits if_splits dest: stringBody_prefix)

lemma wordRegex_prefix: "wordRegex s = Some m \<Longrightarrow> \<exists>r. s = m @ r"
  unfolding wordRegex_def
  by (auto split: list.splits if_splits simp: takeWhile_prefix)

lemma comparisonRegex_prefix:
  assumes "comparisonRegex s = Some (m0, m1, m2)"
  shows "\<exists>r. s = m0 @ r"
proof -
  let ?ws = "takeWhile isSpace (drop 2 s)"
  let ?r = "dropWhile isSpace (drop 2 s)"
  from assms have is2: "take 2 s = ''is''"
    by (simp add: comparisonRegex_def split: if_splits)
  then have s: "s = ''is'' @ ?ws @ ?r"
    by (metis append_take_drop_id takeWhile_dropWhile_id)
  show ?thesis
  proof (cases "take 3 ?r = ''not''")
    case True
    with assms is2 have m0: "m0 = ''is'' @ ?ws @ ''not''"
      by (auto simp: comparisonRegex_def Let_def split: if_splits)
    from True have "?r = ''not'' @ drop 3 ?r"
      by (rule take_eq_append)
    with s have "s = m0 @ drop 3 ?r"
      unfolding m0 by (metis append.assoc)
    then show ?thesis ..
  next
    case False
    define w where "w = (if take 4 ?r = ''less'' then ''less'' else ''greater'')"
    let ?ws2 = "takeWhile isSpace (drop (length w) ?r)"
    let ?r2 = "dropWhile isSpace (drop (length w) ?r)"
    from assms is2 False have w: "take (length w) ?r = w"
      and than: "take 4 ?r2 = ''than''"
      and m0: "m0 = ''is'' @ ?ws @ w @ ?ws2 @ ''than''"
      by (auto simp: comparisonRegex_def Let_def w_def eval_nat_numeral split: if_splits option.splits)
    from w have "?r = w @ drop (length w) ?r"
      by (rule take_eq_append)
    moreover have "drop (length w) ?r = ?ws2 @ ?r2"
      by simp
    moreover from than have "?r2 = ''than'' @ drop 4 ?r2"
      by (rule take_eq_append)
    ultimately have "?r = w @ ?ws2 @ ''than'' @ drop 4 ?r2"
      by metis
    with s have "s = m0 @ drop 4 ?r2"
      unfolding m0 by (metis append.assoc)
    then show ?thesis ..
  qed
qed


lemma sourceText_prefix:
  assumes "lineIndex < length ls" and "col < length (ls ! lineIndex)"
    and "drop col (ls ! lineIndex) = m @ r"
  shows "sourceText ls (Span (lineIndex, col) (lineIndex, col + length m)) = Some m"
proof -
  have "length (drop col (ls ! lineIndex)) = length m + length r"
    using assms(3) by simp
  then have "col + length m \<le> length (ls ! lineIndex)"
    using assms(2) by simp
  with assms show ?thesis
    by (simp add: sourceText_def)
qed

lemma drop_nth_Cons: "col < length line \<Longrightarrow> \<exists>r. drop col line = [line ! col] @ r"
  by (metis Cons_nth_drop_Suc append_Cons append_Nil)

lemma matchNumber_lines: "lines (snd (matchNumber chars lineIndex colIndex t)) = lines t"
  and matchNumber_indent: "indent (snd (matchNumber chars lineIndex colIndex t)) = indent t"
  by (simp_all add: matchNumber_def split: option.splits)

lemma matchString_lines: "lines (snd (matchString chars lineIndex colIndex t)) = lines t"
  and matchString_indent: "indent (snd (matchString chars lineIndex colIndex t)) = indent t"
  by (simp_all add: matchString_def split: option.splits)

lemma matchComment_lines: "lines (snd (matchComment chars lineIndex colIndex t)) = lines t"
  and matchComment_indent: "indent (snd (matchComment chars lineIndex colIndex t)) = indent t"
  by (simp_all add: matchComment_def)

lemma error_lines: "lines (snd (error m lx lineIndex colIndex t)) = lines t"
  and error_indent: "indent (snd (error m lx lineIndex colIndex t)) = indent t"
  and error_tokens: "tokens (snd (error m lx lineIndex colIndex t)) = tokens t"
  by (simp_all add: error_def)

lemma matchWord_lines: "lines (snd (matchWord wt w chars lineIndex colIndex t)) = lines t"
  and matchWord_indent: "indent (snd (matchWord wt w chars lineIndex colIndex t)) = indent t"
  by (simp_all add: matchWord_def Let_def error_lines error_indent split: prod.splits)

lemmas match_lines = matchNumber_lines matchString_lines matchComment_lines matchWord_lines
  error_lines
lemmas match_indent = matchNumber_indent matchString_indent matchComment_indent
  matchWord_indent error_indent

lemma scanStep_lines: "lines (snd (scanStep ct wt line lineIndex colIndex t)) = lines t"
proof (cases "ct (line ! colIndex)")
  case (Some k)
  then show ?thesis by (simp add: scanStep_def)
next
  case None
  then show ?thesis
    by (simp add: scanStep_def Let_def case_prod_beta match_lines split: option.splits)
qed

lemma scanStep_indent: "indent (snd (scanStep ct wt line lineIndex colIndex t)) = indent t"
proof (cases "ct (line ! colIndex)")
  case (Some k)
  then show ?thesis by (simp add: scanStep_def)
next
  case None
  then show ?thesis
    by (simp add: scanStep_def Let_def case_prod_beta match_indent split: option.splits)
qed

lemma matchWord_bare:
  assumes "w = ''less'' \<or> w = ''greater'' \<or> w = ''than''"
  shows "matchWord wt w chars lineIndex colIndex t =
           error (if w = ''than'' then thanMessage else isMessage w) w lineIndex colIndex t"
  unfolding matchWord_def Let_def using assms by (simp only: if_True)

lemma matchWord_comparison:
  assumes "comparisonRegex chars = Some (m0, m1, m2)"
  shows "matchWord wt ''is'' chars lineIndex colIndex t =
           (length m0,
            t\<lparr>tokens := tokens t @
                 [Token (comparisonType (case m2 of Some g \<Rightarrow> g | None \<Rightarrow> m1)
                           (case wt ''is'' of Some k \<Rightarrow> k | None \<Rightarrow> IDENTIFIER))
                    m0 (Span (lineIndex, colIndex) (lineIndex, colIndex + length m0))]\<rparr>)"
  unfolding matchWord_def Let_def using assms by simp

lemma matchWord_plain:
  assumes "\<not> (w = ''less'' \<or> w = ''greater'' \<or> w = ''than'')"
    and "w \<noteq> ''is'' \<or> comparisonRegex chars = None"
  shows "matchWord wt w chars lineIndex colIndex t =
           (length w,
            t\<lparr>tokens := tokens t @
                 [Token (case wt w of Some k \<Rightarrow> k | None \<Rightarrow> IDENTIFIER)
                    w (Span (lineIndex, colIndex) (lineIndex, colIndex + length w))]\<rparr>)"
proof (cases "w = ''is''")
  case True
  with assms(2) have "comparisonRegex chars = None" by simp
  then show ?thesis
    unfolding matchWord_def Let_def True by simp
next
  case False
  with assms(1) show ?thesis
    unfolding matchWord_def Let_def by (simp only: if_False prod.case)
qed

lemma matchWord_tokens:
  assumes line: "lineIndex < length ls" "colIndex < length (ls ! lineIndex)"
    and w: "wordRegex (drop colIndex (ls ! lineIndex)) = Some w"
    and wt: "\<And>w k. wt w = Some k \<Longrightarrow> P k"
    and P: "P IDENTIFIER" "P IS_NOT" "P IS_LESS_THAN" "P IS_GREATER_THAN"
  shows "\<exists>ts. tokens (snd (matchWord wt w (drop colIndex (ls ! lineIndex)) lineIndex colIndex t))
            = tokens t @ ts
          \<and> (\<forall>x\<in>set ts. P (type x) \<and> sourceText ls (span x) = Some (lexeme x))"
proof -
  let ?chars = "drop colIndex (ls ! lineIndex)"
  let ?ty = "\<lambda>w. case wt w of Some k \<Rightarrow> k | None \<Rightarrow> IDENTIFIER"
  have Pty: "P (?ty v)" for v
  proof (cases "wt v")
    case None
    then show ?thesis using P(1) by simp
  next
    case (Some k)
    then have "P k" by (rule wt)
    with Some show ?thesis by simp
  qed
  show ?thesis
  proof (cases "w = ''less'' \<or> w = ''greater'' \<or> w = ''than''")
    case True
    have "tokens (snd (matchWord wt w ?chars lineIndex colIndex t)) = tokens t @ []"
      unfolding matchWord_bare[OF True] by (simp add: error_tokens)
    then show ?thesis by (intro exI[of _ "[]"]) simp
  next
    case False
    show ?thesis
    proof (cases "w \<noteq> ''is'' \<or> comparisonRegex ?chars = None")
      case True
      from w obtain r where r: "?chars = w @ r"
        using wordRegex_prefix by blast
      have "sourceText ls (Span (lineIndex, colIndex) (lineIndex, colIndex + length w)) = Some w"
        using line r by (rule sourceText_prefix)
      then show ?thesis
        unfolding matchWord_plain[OF False True] using Pty[of w] by simp
    next
      case notplain: False
      then have w_is: "w = ''is''" by blast
      from notplain obtain res where res: "comparisonRegex ?chars = Some res"
        by blast
      obtain m0 m1 m2 where "res = (m0, m1, m2)"
        by (cases res)
      with res have c: "comparisonRegex ?chars = Some (m0, m1, m2)"
        by simp
      from c obtain r where r: "?chars = m0 @ r"
        using comparisonRegex_prefix by blast
      have "P (comparisonType v (?ty u))" for v u
        using Pty[of u] P(2-4) by (simp add: comparisonType_def)
      moreover have "sourceText ls (Span (lineIndex, colIndex) (lineIndex, colIndex + length m0)) = Some m0"
        using line r by (rule sourceText_prefix)
      ultimately show ?thesis
        unfolding w_is matchWord_comparison[OF c] by simp
    qed
  qed
qed

lemma scanStep_tokens:
  assumes line: "lineIndex < length ls" "colIndex < length (ls ! lineIndex)"
    and ct: "\<And>c k. ct c = Some k \<Longrightarrow> P k"
    and wt: "\<And>w k. wt w = Some k \<Longrightarrow> P k"
    and P: "P NUMBER" "P STRING" "P IDENTIFIER" "P IS_NOT" "P IS_LESS_THAN" "P IS_GREATER_THAN"
  shows "\<exists>ts. tokens (snd (scanStep ct wt (ls ! lineIndex) lineIndex colIndex t)) = tokens t @ ts
          \<and> (\<forall>x\<in>set ts. P (type x) \<and> sourceText ls (span x) = Some (lexeme x))"
proof -
  let ?line = "ls ! lineIndex"
  let ?c = "?line ! colIndex"
  let ?chars = "drop colIndex ?line"
  let ?good = "\<lambda>ts. \<forall>x\<in>set ts. P (type x) \<and> sourceText ls (span x) = Some (lexeme x)"
  show ?thesis
  proof (cases "ct ?c")
    case (Some k)
    obtain r where "?chars = [?c] @ r"
      using drop_nth_Cons[OF line(2)] by blast
    with line have "sourceText ls (Span (lineIndex, colIndex) (lineIndex, colIndex + length [?c])) = Some [?c]"
      by (rule sourceText_prefix)
    moreover have "P k" using ct Some by blast
    moreover have "tokens (snd (scanStep ct wt ?line lineIndex colIndex t))
        = tokens t @ [Token k [?c] (Span (lineIndex, colIndex) (lineIndex, colIndex + 1))]"
      using Some by (simp add: scanStep_def)
    ultimately show ?thesis by simp
  next
    case None
    define res where "res =
       (if isDigit ?c then matchNumber ?chars lineIndex colIndex t
        else if ?c = quote then matchString ?chars lineIndex colIndex t
        else if ?c = CHR ''#'' then matchComment ?chars lineIndex colIndex t
        else (case wordRegex ?chars of
                Some wordMatch \<Rightarrow> matchWord wt wordMatch ?chars lineIndex colIndex t
              | None \<Rightarrow> (0, t)))"
    have step: "tokens (snd (scanStep ct wt ?line lineIndex colIndex t)) = tokens (snd res)"
      using None
      by (simp add: scanStep_def res_def[symmetric] Let_def error_def split: prod.splits)
    have "\<exists>ts. tokens (snd res) = tokens t @ ts \<and> ?good ts"
    proof -
      have num: "\<exists>ts. tokens (snd (matchNumber ?chars lineIndex colIndex t)) = tokens t @ ts \<and> ?good ts"
      proof (cases "numberRegex ?chars")
        case None
        then have "tokens (snd (matchNumber ?chars lineIndex colIndex t)) = tokens t @ []"
          by (simp add: matchNumber_def)
        then show ?thesis by (intro exI[of _ "[]"]) simp
      next
        case (Some m)
        then obtain r where "?chars = m @ r"
          using numberRegex_prefix by blast
        with line have "sourceText ls (Span (lineIndex, colIndex) (lineIndex, colIndex + length m)) = Some m"
          by (rule sourceText_prefix)
        moreover have "tokens (snd (matchNumber ?chars lineIndex colIndex t))
            = tokens t @ [Token NUMBER m (Span (lineIndex, colIndex) (lineIndex, colIndex + length m))]"
          using Some by (simp add: matchNumber_def)
        ultimately show ?thesis using P(1) by simp
      qed
      have str: "\<exists>ts. tokens (snd (matchString ?chars lineIndex colIndex t)) = tokens t @ ts \<and> ?good ts"
      proof (cases "stringRegex ?chars")
        case None
        then have "tokens (snd (matchString ?chars lineIndex colIndex t)) = tokens t @ []"
          by (simp add: matchString_def)
        then show ?thesis by (intro exI[of _ "[]"]) simp
      next
        case (Some m)
        then obtain r where "?chars = m @ r"
          using stringRegex_prefix by blast
        with line have "sourceText ls (Span (lineIndex, colIndex) (lineIndex, colIndex + length m)) = Some m"
          by (rule sourceText_prefix)
        moreover have "tokens (snd (matchString ?chars lineIndex colIndex t))
            = tokens t @ [Token STRING m (Span (lineIndex, colIndex) (lineIndex, colIndex + length m))]"
          using Some by (simp add: matchString_def)
        ultimately show ?thesis using P(2) by simp
      qed
      have com: "\<exists>ts. tokens (snd (matchComment ?chars lineIndex colIndex t)) = tokens t @ ts \<and> ?good ts"
      proof -
        have "tokens (snd (matchComment ?chars lineIndex colIndex t)) = tokens t @ []"
          by (simp add: matchComment_def)
        then show ?thesis by (intro exI[of _ "[]"]) simp
      qed
      have word: "\<exists>ts. tokens (snd (case wordRegex ?chars of
                Some wordMatch \<Rightarrow> matchWord wt wordMatch ?chars lineIndex colIndex t
              | None \<Rightarrow> (0, t))) = tokens t @ ts \<and> ?good ts"
      proof (cases "wordRegex ?chars")
        case None
        then show ?thesis by simp
      next
        case (Some w)
        show ?thesis
          unfolding Some option.case
          using line Some wt P(3-6) by (rule matchWord_tokens)
      qed
      show ?thesis
        unfolding res_def using num str com word by presburger
    qed
    with step show ?thesis by simp
  qed
qed


lemma scanChars_lines: "lines (scanChars ct wt line lineIndex colIndex t) = lines t"
proof (induction ct wt line lineIndex colIndex t rule: scanChars.induct)
  case (1 ct wt line lineIndex colIndex t)
  show ?case
  proof (cases "colIndex < length line")
    case True
    let ?s = "scanStep ct wt line lineIndex colIndex t"
    have "lines (scanChars ct wt line lineIndex (fst ?s) (snd ?s)) = lines (snd ?s)"
      using True by (intro 1) simp_all
    then show ?thesis
      by (simp add: scanChars_step[OF True] scanStep_lines)
  next
    case False
    then show ?thesis by (simp add: scanChars_done)
  qed
qed

lemma scanChars_indent: "indent (scanChars ct wt line lineIndex colIndex t) = indent t"
proof (induction ct wt line lineIndex colIndex t rule: scanChars.induct)
  case (1 ct wt line lineIndex colIndex t)
  show ?case
  proof (cases "colIndex < length line")
    case True
    let ?s = "scanStep ct wt line lineIndex colIndex t"
    have "indent (scanChars ct wt line lineIndex (fst ?s) (snd ?s)) = indent (snd ?s)"
      using True by (intro 1) simp_all
    then show ?thesis
      by (simp add: scanChars_step[OF True] scanStep_indent)
  next
    case False
    then show ?thesis by (simp add: scanChars_done)
  qed
qed

lemma scanChars_tokens:
  assumes "lineIndex < length ls" and "line = ls ! lineIndex"
    and ct: "\<And>c k. ct c = Some k \<Longrightarrow> P k"
    and wt: "\<And>w k. wt w = Some k \<Longrightarrow> P k"
    and P: "P NUMBER" "P STRING" "P IDENTIFIER" "P IS_NOT" "P IS_LESS_THAN" "P IS_GREATER_THAN"
  shows "\<exists>ts. tokens (scanChars ct wt line lineIndex colIndex t) = tokens t @ ts
          \<and> (\<forall>x\<in>set ts. P (type x) \<and> sourceText ls (span x) = Some (lexeme x))"
  using assms
proof (induction ct wt line lineIndex colIndex t rule: scanChars.induct)
  case (1 ct wt line lineIndex colIndex t)
  let ?good = "\<lambda>ts. \<forall>x\<in>set ts. P (type x) \<and> sourceText ls (span x) = Some (lexeme x)"
  show ?case
  proof (cases "colIndex < length line")
    case True
    let ?s = "scanStep ct wt line lineIndex colIndex t"
    have col: "colIndex < length (ls ! lineIndex)"
      using True "1.prems"(2) by simp
    have "\<exists>ts. tokens (snd (scanStep ct wt (ls ! lineIndex) lineIndex colIndex t)) = tokens t @ ts
            \<and> ?good ts"
      using "1.prems"(1) col "1.prems"(3-) by (rule scanStep_tokens)
    then obtain ts1 where ts1: "tokens (snd ?s) = tokens t @ ts1" "?good ts1"
      using "1.prems"(2) by auto
    have "\<exists>ts. tokens (scanChars ct wt line lineIndex (fst ?s) (snd ?s)) = tokens (snd ?s) @ ts
            \<and> ?good ts"
      by (rule "1.IH"[OF True prod.collapse]) (fact "1.prems")+
    then obtain ts2 where ts2:
      "tokens (scanChars ct wt line lineIndex (fst ?s) (snd ?s)) = tokens (snd ?s) @ ts2" "?good ts2"
      by auto
    have "tokens (scanChars ct wt line lineIndex colIndex t) = tokens t @ (ts1 @ ts2)"
      by (simp add: scanChars_step[OF True] ts1 ts2)
    moreover have "?good (ts1 @ ts2)"
      using ts1(2) ts2(2) by auto
    ultimately show ?thesis
      by (intro exI[of _ "ts1 @ ts2"] conjI)
  next
    case False
    then show ?thesis
      by (intro exI[of _ "[]"]) (simp add: scanChars_done)
  qed
qed


lemma addIndentTokens_tokens:
  "tokens (addIndentTokens lineIndex ind t) = tokens t @ indentTokens lineIndex (indent t) ind"
  by (simp add: addIndentTokens_def indentTokens_def Let_def)

lemma addIndentTokens_lines: "lines (addIndentTokens lineIndex ind t) = lines t"
  by (simp add: addIndentTokens_def Let_def)

lemma scanLine_lines: "lines (scanLine ct wt lineIndex t) = lines t"
  by (simp add: scanLine_def Let_def scanChars_lines addIndentTokens_lines)

lemma scanLine_result:
  assumes "lineIndex < length (lines t)"
    and ct: "\<And>c k. ct c = Some k \<Longrightarrow> P k"
    and wt: "\<And>w k. wt w = Some k \<Longrightarrow> P k"
    and P: "P NUMBER" "P STRING" "P IDENTIFIER" "P IS_NOT" "P IS_LESS_THAN" "P IS_GREATER_THAN"
  shows "(tokens (scanLine ct wt lineIndex t) = tokens t
            \<and> indent (scanLine ct wt lineIndex t) = indent t)
         \<or> (\<exists>ts. tokens (scanLine ct wt lineIndex t) =
                   tokens t
                   @ indentTokens lineIndex (indent t) (indent (scanLine ct wt lineIndex t))
                   @ ts
                   @ [Token NEWLINE [CHR 0x0A]
                        (Span (lineIndex, length (lines t ! lineIndex))
                              (lineIndex, length (lines t ! lineIndex) + 1))]
                \<and> (\<forall>x\<in>set ts. P (type x) \<and> sourceText (lines t) (span x) = Some (lexeme x)))"
proof -
  let ?line = "lines t ! lineIndex"
  let ?ind = "getIndent ?line"
  let ?t2 = "(addIndentTokens lineIndex ?ind t)\<lparr>indent := ?ind\<rparr>"
  let ?t3 = "scanChars ct wt ?line lineIndex ?ind ?t2"
  let ?nl = "Token NEWLINE [CHR 0x0A] (Span (lineIndex, length ?line) (lineIndex, length ?line + 1))"
  show ?thesis
  proof (cases "length (trimLeft ?line) = 0 \<or> hd (trimLeft ?line) = CHR ''#''")
    case True
    then have "tokens (scanLine ct wt lineIndex t) = tokens t
        \<and> indent (scanLine ct wt lineIndex t) = indent t"
      by (auto simp: scanLine_def Let_def)
    then show ?thesis ..
  next
    case False
    then have res: "scanLine ct wt lineIndex t = ?t3\<lparr>tokens := tokens ?t3 @ [?nl]\<rparr>"
      by (simp add: scanLine_def Let_def)
    have "\<exists>ts. tokens ?t3 = tokens ?t2 @ ts
            \<and> (\<forall>x\<in>set ts. P (type x) \<and> sourceText (lines t) (span x) = Some (lexeme x))"
      using assms(1) refl ct wt P by (rule scanChars_tokens)
    then obtain ts where ts: "tokens ?t3 = tokens ?t2 @ ts"
      "\<forall>x\<in>set ts. P (type x) \<and> sourceText (lines t) (span x) = Some (lexeme x)"
      by auto
    have ind: "indent (scanLine ct wt lineIndex t) = ?ind"
      by (simp add: res scanChars_indent)
    have "tokens (scanLine ct wt lineIndex t) =
            tokens t @ indentTokens lineIndex (indent t) ?ind @ ts @ [?nl]"
      by (simp add: res ts(1) addIndentTokens_tokens)
    with ts(2) ind show ?thesis
      by auto
  qed
qed

lemma foldl_scanLine_invariant:
  assumes "\<forall>i\<in>set js. i < length (lines t)" and "I t"
    and step: "\<And>s i. lines s = lines t \<Longrightarrow> I s \<Longrightarrow> i < length (lines t) \<Longrightarrow> I (scanLine ct wt i s)"
  shows "I (foldl (\<lambda>s i. scanLine ct wt i s) t js)
         \<and> lines (foldl (\<lambda>s i. scanLine ct wt i s) t js) = lines t"
  using assms(1)
proof (induction js rule: rev_induct)
  case Nil
  then show ?case using assms(2) by simp
next
  case (snoc j js)
  then show ?case
    by (simp add: step scanLine_lines)
qed

lemma scanLines_invariant:
  assumes "I t"
    and step: "\<And>s i. lines s = lines t \<Longrightarrow> I s \<Longrightarrow> i < length (lines t) \<Longrightarrow> I (scanLine ct wt i s)"
  shows "I (scanLines ct wt t)" and "lines (scanLines ct wt t) = lines t"
proof -
  have "\<forall>i\<in>set [0..<length (lines t)]. i < length (lines t)"
    by simp
  then have "I (foldl (\<lambda>s i. scanLine ct wt i s) t [0..<length (lines t)])
         \<and> lines (foldl (\<lambda>s i. scanLine ct wt i s) t [0..<length (lines t)]) = lines t"
    using assms by (rule foldl_scanLine_invariant)
  then show "I (scanLines ct wt t)" and "lines (scanLines ct wt t) = lines t"
    by (simp_all add: scanLines_def)
qed

lemma countType_append [simp]: "countType k (xs @ ys) = countType k xs + countType k ys"
  by (simp add: countType_def)

lemma countType_replicate [simp]:
  "countType k (replicate n x) = (if type x = k then n else 0)"
  by (simp add: countType_def)

lemma countType_Cons [simp]:
  "countType k (x # xs) = (if type x = k then 1 else 0) + countType k xs"
  by (simp add: countType_def)

lemma countType_Nil [simp]: "countType k [] = 0"
  by (simp add: countType_def)

lemma countType_none: "\<forall>x\<in>set ts. type x \<noteq> k \<Longrightarrow> countType k ts = 0"
  by (induction ts) simp_all

lemma scanLine_balance:
  assumes "lineIndex < length (lines t)"
    and ct: "\<And>c k. ct c = Some k \<Longrightarrow> k \<noteq> INDENT \<and> k \<noteq> OUTDENT"
    and wt: "\<And>w k. wt w = Some k \<Longrightarrow> k \<noteq> INDENT \<and> k \<noteq> OUTDENT"
    and bal: "countType INDENT (tokens t) = countType OUTDENT (tokens t) + indent t"
  shows "countType INDENT (tokens (scanLine ct wt lineIndex t))
         = countType OUTDENT (tokens (scanLine ct wt lineIndex t)) + indent (scanLine ct wt lineIndex t)"
proof -
  let ?s = "scanLine ct wt lineIndex t"
  let ?P = "\<lambda>k. k \<noteq> INDENT \<and> k \<noteq> OUTDENT"
  have "(tokens ?s = tokens t \<and> indent ?s = indent t)
         \<or> (\<exists>ts. tokens ?s =
                   tokens t
                   @ indentTokens lineIndex (indent t) (indent ?s)
                   @ ts
                   @ [Token NEWLINE [CHR 0x0A]
                        (Span (lineIndex, length (lines t ! lineIndex))
                              (lineIndex, length (lines t ! lineIndex) + 1))]
                \<and> (\<forall>x\<in>set ts. ?P (type x) \<and> sourceText (lines t) (span x) = Some (lexeme x)))"
    using assms(1) ct wt by (rule scanLine_result) simp_all
  then show ?thesis
  proof
    assume "tokens ?s = tokens t \<and> indent ?s = indent t"
    with bal show ?thesis by simp
  next
    assume "\<exists>ts. tokens ?s =
                   tokens t
                   @ indentTokens lineIndex (indent t) (indent ?s)
                   @ ts
                   @ [Token NEWLINE [CHR 0x0A]
                        (Span (lineIndex, length (lines t ! lineIndex))
                              (lineIndex, length (lines t ! lineIndex) + 1))]
                \<and> (\<forall>x\<in>set ts. ?P (type x) \<and> sourceText (lines t) (span x) = Some (lexeme x))"
    then obtain ts where tok: "tokens ?s =
                   tokens t
                   @ indentTokens lineIndex (indent t) (indent ?s)
                   @ ts
                   @ [Token NEWLINE [CHR 0x0A]
                        (Span (lineIndex, length (lines t ! lineIndex))
                              (lineIndex, length (lines t ! lineIndex) + 1))]"
      and ts: "\<forall>x\<in>set ts. type x \<noteq> INDENT" "\<forall>x\<in>set ts. type x \<noteq> OUTDENT"
      by auto
    have "countType INDENT ts = 0" "countType OUTDENT ts = 0"
      using ts by (simp_all add: countType_none)
    then show ?thesis
      unfolding tok using bal by (simp add: indentTokens_def)
  qed
qed


lemmas tokenizer_eval =
  tokenize_def scanLines_def newTokenizer_def scanLine_def trimLeft_def isSpace_def
  getIndent_def addIndentTokens_def scanStep_def matchNumber_def matchString_def
  matchComment_def matchWord_def numberRegex_def stringRegex_def wordRegex_def
  comparisonRegex_def comparisonType_def error_def isDigit_def isLetter_def isWordChar_def
  isLineTerminator_def quote_def tab_def unexpectedMessage_def thanMessage_def isMessage_def
  scanChars_step scanChars_done Let_def

lemma charTokens_virtual:
  "charTokens c \<noteq> Some INDENT" "charTokens c \<noteq> Some OUTDENT"
  "charTokens c \<noteq> Some NEWLINE" "charTokens c \<noteq> Some EOF"
  by (simp_all add: charTokens_def)

lemma wordTokens_virtual:
  "wordTokens w \<noteq> Some INDENT" "wordTokens w \<noteq> Some OUTDENT"
  "wordTokens w \<noteq> Some NEWLINE" "wordTokens w \<noteq> Some EOF"
  by (simp_all add: wordTokens_def)

lemma scanLine_lexemeRule:
  assumes "lineIndex < length (lines t)"
    and ct: "\<And>c k. ct c = Some k \<Longrightarrow> k \<notin> {INDENT, OUTDENT, NEWLINE, EOF}"
    and wt: "\<And>w k. wt w = Some k \<Longrightarrow> k \<notin> {INDENT, OUTDENT, NEWLINE, EOF}"
    and inv: "\<forall>x\<in>set (tokens t). lexemeRule (lines t) x"
  shows "\<forall>x\<in>set (tokens (scanLine ct wt lineIndex t)). lexemeRule (lines t) x"
proof -
  let ?s = "scanLine ct wt lineIndex t"
  let ?P = "\<lambda>k. k \<notin> {INDENT, OUTDENT, NEWLINE, EOF}"
  let ?nl = "Token NEWLINE [CHR 0x0A]
                        (Span (lineIndex, length (lines t ! lineIndex))
                              (lineIndex, length (lines t ! lineIndex) + 1))"
  have "(tokens ?s = tokens t \<and> indent ?s = indent t)
         \<or> (\<exists>ts. tokens ?s =
                   tokens t @ indentTokens lineIndex (indent t) (indent ?s) @ ts @ [?nl]
                \<and> (\<forall>x\<in>set ts. ?P (type x) \<and> sourceText (lines t) (span x) = Some (lexeme x)))"
    using assms(1) ct wt by (rule scanLine_result) simp_all
  then show ?thesis
  proof
    assume "tokens ?s = tokens t \<and> indent ?s = indent t"
    with inv show ?thesis by simp
  next
    assume "\<exists>ts. tokens ?s =
                   tokens t @ indentTokens lineIndex (indent t) (indent ?s) @ ts @ [?nl]
                \<and> (\<forall>x\<in>set ts. ?P (type x) \<and> sourceText (lines t) (span x) = Some (lexeme x))"
    then obtain ts where tok: "tokens ?s =
                   tokens t @ indentTokens lineIndex (indent t) (indent ?s) @ ts @ [?nl]"
      and ts: "\<forall>x\<in>set ts. ?P (type x) \<and> sourceText (lines t) (span x) = Some (lexeme x)"
      by auto
    have a: "\<forall>x\<in>set (indentTokens lineIndex (indent t) (indent ?s)). lexemeRule (lines t) x"
      by (simp add: indentTokens_def lexemeRule_def)
    have b: "\<forall>x\<in>set ts. lexemeRule (lines t) x"
      using ts by (simp add: lexemeRule_def)
    have c: "lexemeRule (lines t) ?nl"
      by (simp add: lexemeRule_def)
    show ?thesis
      unfolding tok using inv a b c by auto
  qed
qed

lemma tokenize_lexemeRule:
  assumes ct: "\<And>c k. ct c = Some k \<Longrightarrow> k \<notin> {INDENT, OUTDENT, NEWLINE, EOF}"
    and wt: "\<And>w k. wt w = Some k \<Longrightarrow> k \<notin> {INDENT, OUTDENT, NEWLINE, EOF}"
  shows "\<forall>x\<in>set (tokens (tokenize ct wt src)). lexemeRule (splitLines src) x"
proof -
  let ?I = "\<lambda>t. \<forall>x\<in>set (tokens t). lexemeRule (splitLines src) x"
  let ?t1 = "scanLines ct wt (newTokenizer src)"
  have init: "?I (newTokenizer src)"
    by (simp add: newTokenizer_def)
  have step: "?I (scanLine ct wt i s)"
    if "lines s = lines (newTokenizer src)" "?I s" "i < length (lines (newTokenizer src))" for s i
  proof -
    from that have i: "i < length (lines s)" and ls: "lines s = splitLines src"
      by (simp_all add: newTokenizer_def)
    from that(2) ls have "\<forall>x\<in>set (tokens s). lexemeRule (lines s) x"
      by simp
    with i ct wt have "\<forall>x\<in>set (tokens (scanLine ct wt i s)). lexemeRule (lines s) x"
      by (rule scanLine_lexemeRule)
    with ls show ?thesis by simp
  qed
  have "?I ?t1"
    using init step by (rule scanLines_invariant(1))
  then show ?thesis
    by (auto simp: tokenize_def Let_def lexemeRule_def)
qed

lemma wordRegex_first:
  assumes "colIndex < length line" and "wordRegex (drop colIndex line) = Some w"
  shows "\<not> isDigit (line ! colIndex)" and "line ! colIndex \<noteq> quote"
    and "line ! colIndex \<noteq> CHR ''#''" and "0 < length w"
proof -
  have d: "drop colIndex line = line ! colIndex # drop (Suc colIndex) line"
    using assms(1) by (simp add: Cons_nth_drop_Suc)
  with assms(2) have l: "isLetter (line ! colIndex) \<or> line ! colIndex = CHR ''_''"
    and w: "w = line ! colIndex # takeWhile isWordChar (drop (Suc colIndex) line)"
    by (auto simp: wordRegex_def split: if_splits)
  from l show "\<not> isDigit (line ! colIndex)"
    by (auto simp: isLetter_def isDigit_def)
  from l show "line ! colIndex \<noteq> quote"
    by (auto simp: isLetter_def quote_def)
  from l show "line ! colIndex \<noteq> CHR ''#''"
    by (auto simp: isLetter_def)
  from w show "0 < length w" by simp
qed

lemma scanStep_word:
  assumes "colIndex < length line" and "ct (line ! colIndex) = None"
    and "wordRegex (drop colIndex line) = Some w"
    and "matchWord wt w (drop colIndex line) lineIndex colIndex t = (length w, t')"
  shows "scanStep ct wt line lineIndex colIndex t = (colIndex + length w, t')"
  using assms(2-4) wordRegex_first[OF assms(1,3)]
  by (simp add: scanStep_def Let_def)

lemma is_less_than_tokens:
  assumes ct: "ct CHR ''i'' = None" "ct CHR ''x'' = None" "ct CHR ''y'' = None"
      "ct CHR '' '' = None"
  shows "tokens (tokenize ct wt ''if x is less than y'') =
       [Token (case wt ''if'' of Some k \<Rightarrow> k | None \<Rightarrow> IDENTIFIER) ''if'' (Span (0, 0) (0, 2)),
        Token (case wt ''x'' of Some k \<Rightarrow> k | None \<Rightarrow> IDENTIFIER) ''x'' (Span (0, 3) (0, 4)),
        Token IS_LESS_THAN ''is less than'' (Span (0, 5) (0, 17)),
        Token (case wt ''y'' of Some k \<Rightarrow> k | None \<Rightarrow> IDENTIFIER) ''y'' (Span (0, 18) (0, 19)),
        Token NEWLINE [CHR 0x0A] (Span (0, 19) (0, 20)),
        Token EOF [] (Span (0, 19) (0, 20))]"
  by (simp add: tokenizer_eval ct)

lemma is_less_than_tokens_space:
  assumes ct: "ct CHR ''i'' = None" "ct CHR ''x'' = None" "ct CHR ''y'' = None"
      "ct CHR '' '' = Some k"
  shows "tokens (tokenize ct wt ''if x is less than y'') =
       [Token (case wt ''if'' of Some k \<Rightarrow> k | None \<Rightarrow> IDENTIFIER) ''if'' (Span (0, 0) (0, 2)),
        Token k '' '' (Span (0, 2) (0, 3)),
        Token (case wt ''x'' of Some k \<Rightarrow> k | None \<Rightarrow> IDENTIFIER) ''x'' (Span (0, 3) (0, 4)),
        Token k '' '' (Span (0, 4) (0, 5)),
        Token IS_LESS_THAN ''is less than'' (Span (0, 5) (0, 17)),
        Token k '' '' (Span (0, 17) (0, 18)),
        Token (case wt ''y'' of Some k \<Rightarrow> k | None \<Rightarrow> IDENTIFIER) ''y'' (Span (0, 18) (0, 19)),
        Token NEWLINE [CHR 0x0A] (Span (0, 19) (0, 20)),
        Token EOF [] (Span (0, 19) (0, 20))]"
  by (simp add: tokenizer_eval ct)

lemma tokenize_empty:
  "tokens (tokenize ct wt []) = [Token EOF [] (Span (0, 0) (0, 1))]"
  "comments (tokenize ct wt []) = []"
  "diagnostics (tokenize ct wt []) = []"
  by (simp_all add: tokenizer_eval)

lemma scanChars_grows:
  "\<exists>ts. tokens (scanChars ct wt line lineIndex colIndex t) = tokens t @ ts"
proof -
  have "\<exists>ts. tokens (scanChars ct wt line lineIndex colIndex t) = tokens t @ ts
          \<and> (\<forall>x\<in>set ts. True \<and> sourceText (replicate lineIndex [] @ [line]) (span x) = Some (lexeme x))"
    by (rule scanChars_tokens[where P = "\<lambda>k. True" and ls = "replicate lineIndex [] @ [line]"])
       (simp_all add: nth_append)
  then show ?thesis by blast
qed

lemma scanLine_grows:
  "\<exists>ts. tokens (scanLine ct wt lineIndex t) = tokens t @ ts"
proof -
  have "\<exists>ts. tokens (scanChars ct wt line lineIndex colIndex s) = tokens s @ ts"
    for line colIndex s
    by (rule scanChars_grows)
  then obtain f where f: "tokens (scanChars ct wt line lineIndex colIndex s) = tokens s @ f line colIndex s"
    for line colIndex s
    by metis
  show ?thesis
    by (simp add: scanLine_def Let_def f addIndentTokens_tokens)
qed

lemma foldl_scanLine_grows:
  "\<exists>ts. tokens (foldl (\<lambda>s i. scanLine ct wt i s) t js) = tokens t @ ts"
proof (induction js arbitrary: t)
  case Nil
  show ?case by simp
next
  case (Cons j js)
  obtain ts1 where "tokens (scanLine ct wt j t) = tokens t @ ts1"
    using scanLine_grows by blast
  moreover obtain ts2 where
    "tokens (foldl (\<lambda>s i. scanLine ct wt i s) (scanLine ct wt j t) js)
       = tokens (scanLine ct wt j t) @ ts2"
    using Cons.IH by blast
  ultimately have "tokens (foldl (\<lambda>s i. scanLine ct wt i s) t (j # js)) = tokens t @ (ts1 @ ts2)"
    by simp
  then show ?case ..
qed

lemma foldl_scanLine_lines:
  "lines (foldl (\<lambda>s i. scanLine ct wt i s) t js) = lines t"
  by (induction js arbitrary: t) (simp_all add: scanLine_lines)

lemma tokenize_contains_line:
  assumes "lineIndex < length (splitLines src)"
    and "\<And>s. lines s = splitLines src \<Longrightarrow> tk \<in> set (tokens (scanLine ct wt lineIndex s))"
  shows "tk \<in> set (tokens (tokenize ct wt src))"
proof -
  let ?f = "\<lambda>s i. scanLine ct wt i s"
  let ?t0 = "newTokenizer src"
  let ?n = "length (splitLines src)"
  have n: "length (lines ?t0) = ?n"
    by (simp add: newTokenizer_def)
  have "[0..<?n] = [0..<lineIndex] @ lineIndex # [Suc lineIndex..<?n]"
    using assms(1) by (metis le0 le_add1 less_imp_add_positive upt_add_eq_append upt_conv_Cons
        less_imp_le_nat upt_rec)
  then have split: "scanLines ct wt ?t0 =
      foldl ?f (scanLine ct wt lineIndex (foldl ?f ?t0 [0..<lineIndex])) [Suc lineIndex..<?n]"
    by (simp add: scanLines_def n)
  have "lines (foldl ?f ?t0 [0..<lineIndex]) = splitLines src"
    by (simp add: foldl_scanLine_lines newTokenizer_def)
  then have "tk \<in> set (tokens (scanLine ct wt lineIndex (foldl ?f ?t0 [0..<lineIndex])))"
    by (rule assms(2))
  moreover obtain ts where
    "tokens (scanLines ct wt ?t0) =
       tokens (scanLine ct wt lineIndex (foldl ?f ?t0 [0..<lineIndex])) @ ts"
    unfolding split using foldl_scanLine_grows by blast
  ultimately have "tk \<in> set (tokens (scanLines ct wt ?t0))"
    by simp
  then show ?thesis
    by (simp add: tokenize_def Let_def)
qed

lemma scanLine_reached_word:
  assumes line: "lines s ! lineIndex = line"
    and col: "colIndex < length line"
    and wr: "wordRegex (drop colIndex line) = Some w"
    and nc: "hd (trimLeft line) \<noteq> CHR ''#''"
    and reach: "\<forall>t0. \<exists>t1. scanChars ct wt line lineIndex (getIndent line) t0
                   = scanChars ct wt line lineIndex colIndex t1"
    and step: "\<And>t. scanStep ct wt line lineIndex colIndex t
                 = (colIndex + length w, t\<lparr>tokens := tokens t @ [tk]\<rparr>)"
  shows "tk \<in> set (tokens (scanLine ct wt lineIndex s))"
proof -
  let ?ind = "getIndent line"
  let ?t2 = "(addIndentTokens lineIndex ?ind s)\<lparr>indent := ?ind\<rparr>"
  have "drop colIndex line = line ! colIndex # drop (Suc colIndex) line"
    using col by (simp add: Cons_nth_drop_Suc)
  with wr have "isLetter (line ! colIndex) \<or> line ! colIndex = CHR ''_''"
    by (auto simp: wordRegex_def split: if_splits)
  then have "\<not> isSpace (line ! colIndex)"
    by (auto simp: isLetter_def isSpace_def)
  moreover have "line ! colIndex \<in> set line"
    using col by simp
  ultimately have nb: "length (trimLeft line) \<noteq> 0"
    by (auto simp: trimLeft_def dropWhile_eq_Nil_conv)
  from reach obtain t1 where
    "scanChars ct wt line lineIndex ?ind ?t2 = scanChars ct wt line lineIndex colIndex t1"
    by blast
  then have "scanChars ct wt line lineIndex ?ind ?t2
      = scanChars ct wt line lineIndex (colIndex + length w) (t1\<lparr>tokens := tokens t1 @ [tk]\<rparr>)"
    by (simp add: scanChars_step[OF col] step)
  moreover obtain ts where
    "tokens (scanChars ct wt line lineIndex (colIndex + length w) (t1\<lparr>tokens := tokens t1 @ [tk]\<rparr>))
       = tokens (t1\<lparr>tokens := tokens t1 @ [tk]\<rparr>) @ ts"
    using scanChars_grows by blast
  ultimately have "tk \<in> set (tokens (scanChars ct wt line lineIndex ?ind ?t2))"
    by simp
  then show ?thesis
    using nb nc line by (simp add: scanLine_def Let_def)
qed

section \<open>Evaluation of the parser and properties of the linter rule\<close>

lemma andThen_Inr: "andThen (Inr (x, p)) f = f x p"
  by (simp add: andThen_def)

lemma andThen_Inl: "andThen (Inl e) f = Inl e"
  by (simp add: andThen_def)

lemma andThen_weak_cong: "r = r' \<Longrightarrow> andThen r f = andThen r' f"
  by simp

lemma parsePrecedence_numeral:
  "parsePrecedence (numeral k) lvl m infos p =
     (if hasPrefixRule (type (peek p)) then
        andThen (prefixExpr (parsePrecedence (pred_numeral k)) (pred_numeral k) (peek p) (advance p))
          (\<lambda>left p1. infixLoop (parsePrecedence (pred_numeral k)) (pred_numeral k) lvl left p1)
      else Inl (syntaxError m infos p))"
  by (simp add: numeral_eq_Suc)

lemma infixLoop_numeral:
  "infixLoop pp (numeral k) lvl left p =
     (case infixPrecedence (type (peek p)) of
        None \<Rightarrow> Inr (left, p)
      | Some prec \<Rightarrow>
          if lvl < prec then
            andThen (infixExpr pp (pred_numeral k) prec left (peek p) (advance p))
              (\<lambda>node p1. infixLoop pp (pred_numeral k) lvl node p1)
          else Inr (left, p))"
  by (simp add: numeral_eq_Suc)

lemma expressionListRest_numeral:
  "expressionListRest pp (numeral k) closing p =
     andThen (expression pp ''Expected an expression'' [] p)
       (\<lambda>e p1.
          case matchIgnoreNewline COMMA p1 of
            (True, p2) \<Rightarrow>
              andThen (expressionListRest pp (pred_numeral k) closing (ignoreNewline p2))
                (\<lambda>es p3. Inr (e # es, p3))
          | (False, p2) \<Rightarrow>
              andThen (consume closing ''Expected the end of the list'' [] (ignoreNewline p1))
                (\<lambda>close p3. Inr ([e], p3)))"
  by (simp add: numeral_eq_Suc)

lemma newMembers_numeral:
  "newMembers (numeral k) object p =
     (case match DOT p of
        (True, p1) \<Rightarrow>
          andThen (memberExpr p1 object (previous p1))
            (\<lambda>object' p2. newMembers (pred_numeral k) object' p2)
      | (False, p1) \<Rightarrow> Inr (object, p))"
  by (simp add: numeral_eq_Suc)

lemma typeNames_numeral:
  "typeNames (numeral k) acc p =
     (case match DOT p of
        (True, p1) \<Rightarrow>
          andThen (consume IDENTIFIER ''Expected an identifier after the dot'' [] p1)
            (\<lambda>name p2. typeNames (pred_numeral k) (acc @ [name]) p2)
      | (False, p1) \<Rightarrow> Inr (acc, p))"
  by (simp add: numeral_eq_Suc)

lemma matchTypeDecl_numeral:
  "matchTypeDecl (numeral k) p =
     andThen (consume IDENTIFIER ''Expected a type'' [] p)
       (\<lambda>name p1.
          andThen (typeNames (pred_numeral k) [name] p1)
            (\<lambda>names p2.
               case match LT p2 of
                 (True, p3) \<Rightarrow>
                   andThen (matchGenericArgs (pred_numeral k) p3)
                     (\<lambda>args p4.
                        Inr (VariableType names args
                               (Span (start (span name)) (finish (span (previous p4)))), p4))
               | (False, p3) \<Rightarrow>
                   Inr (VariableType names []
                          (Span (start (span name)) (finish (span (previous p2)))), p2)))"
  by (simp add: numeral_eq_Suc)

lemma matchGenericArgs_numeral:
  "matchGenericArgs (numeral k) p =
     andThen (matchTypeDecl (pred_numeral k) (ignoreNewline p))
       (\<lambda>ty p1.
          case matchIgnoreNewline COMMA p1 of
            (True, p2) \<Rightarrow>
              andThen (matchGenericArgs (pred_numeral k) p2) (\<lambda>tys p3. Inr (ty # tys, p3))
          | (False, p2) \<Rightarrow>
              andThen (consume GT ''Expected a closing angle bracket'' [] (ignoreNewline p1))
                (\<lambda>gt p3. Inr ([ty], p3)))"
  by (simp add: numeral_eq_Suc)

lemma programLoop_numeral:
  "programLoop (numeral k) body p =
     (if isAtEnd (ignoreNewline p) then Inr (body, ignoreNewline p)
      else
        (case statement (pred_numeral k) (ignoreNewline p) of
           Inr (node, p1) \<Rightarrow> programLoop (pred_numeral k) (body @ [node]) p1
         | Inl OutOfFuel \<Rightarrow> Inl OutOfFuel
         | Inl (SyntaxError d pe) \<Rightarrow>
             programLoop (pred_numeral k) body
               ((sync pe)\<lparr>pdiagnostics := pdiagnostics pe @ [d]\<rparr>)))"
  by (simp add: numeral_eq_Suc)

lemmas parser_eval =
  parse_def parseWithFuel_def programLoop_numeral statement_def parsePrecedence_numeral
  prefixExpr_def infixExpr_def infixLoop_numeral matchExpressionList_def
  expressionListRest_numeral newExpr_def newMembers_numeral memberExpr_def variableDecl_def
  typeNames_numeral matchTypeDecl_numeral matchGenericArgs_numeral
  andThen_Inr andThen_Inl
  peek_def previous_def isAtEnd_def advance_def match_def ignoreNewline_def
  matchIgnoreNewline_def consume_def syntaxError_def sync_def
  infixPrecedence_def hasPrefixRule_def expression_def lowest_def
  OP1_def OP2_def OP3_def OP4_def OP5_def OP6_def OP7_def OP8_def OP9_def OP10_def OP11_def
  OP12_def




lemma fold_checkNode:
  "fold (\<lambda>prop. checkNode isDeclaration (propValue prop)) props reports =
     reports @ map (\<lambda>n. Diagnostic ERROR ''linter''
                          ''You can only put declarations in a class body'' (nodeSpan n) [])
                 (filter (\<lambda>n. \<not> isDeclaration n) (map propValue props))"
  by (induction props arbitrary: reports) (simp_all add: checkNode_def report_def)

lemma memberChain_snoc:
  "memberChain root (props @ [property]) =
     MemberExpression (memberChain root props) property
       (Span (start (nodeSpan (memberChain root props))) (finish (span property)))"
  by (simp add: memberChain_def)

lemma memberChain_Cons:
  "memberChain root (property # props) =
     memberChain (MemberExpression root property
       (Span (start (nodeSpan root)) (finish (span property)))) props"
  by (simp add: memberChain_def)

lemma peek_in_range: "current p < length (ptokens p) \<Longrightarrow> peek p = ptokens p ! current p"
  by (simp add: peek_def)

lemma dot_identifier_pair:
  assumes d: "type (peek p) = DOT" and i: "type (peek (advance p)) = IDENTIFIER"
  shows "Suc (current p) < length (ptokens p)"
    and "advance p = p\<lparr>current := Suc (current p)\<rparr>"
    and "peek (advance p) = ptokens p ! Suc (current p)"
    and "advance (advance p) = p\<lparr>current := Suc (Suc (current p))\<rparr>"
    and "type (ptokens p ! current p) = DOT"
proof -
  have adv: "advance p = p\<lparr>current := Suc (current p)\<rparr>"
    using d by (simp add: advance_def isAtEnd_def)
  show lt: "Suc (current p) < length (ptokens p)"
  proof (rule ccontr)
    assume "\<not> Suc (current p) < length (ptokens p)"
    have "peek (advance p) = peek p"
    proof (cases "current p < length (ptokens p)")
      case True
      with \<open>\<not> Suc (current p) < length (ptokens p)\<close>
      have e: "length (ptokens p) = Suc (current p)" by simp
      then have "ptokens p \<noteq> []" by auto
      then show ?thesis
        unfolding adv using e by (simp add: peek_def last_conv_nth)
    next
      case False
      then show ?thesis
        unfolding adv by (simp add: peek_def)
    qed
    with d i show False by simp
  qed
  show "advance p = p\<lparr>current := Suc (current p)\<rparr>" by (rule adv)
  show pk: "peek (advance p) = ptokens p ! Suc (current p)"
    unfolding adv using lt by (simp add: peek_def)
  show "advance (advance p) = p\<lparr>current := Suc (Suc (current p))\<rparr>"
    using i unfolding adv by (simp add: advance_def isAtEnd_def)
  show "type (ptokens p ! current p) = DOT"
    using d lt by (simp add: peek_def)
qed

lemma memberTokens_none: "type (peek p) \<noteq> DOT \<Longrightarrow> memberTokens p = []"
proof (cases "drop (current p) (ptokens p)")
  case Nil
  then show ?thesis by (simp add: memberTokens_def)
next
  case (Cons d rest)
  then have lt: "current p < length (ptokens p)"
    by (cases "current p < length (ptokens p)") simp_all
  then have "d = ptokens p ! current p"
    using Cons by (simp add: Cons_nth_drop_Suc[symmetric])
  moreover assume "type (peek p) \<noteq> DOT"
  ultimately have "type d \<noteq> DOT"
    using lt by (simp add: peek_def)
  then show ?thesis
    unfolding memberTokens_def Cons by (cases rest) simp_all
qed

lemma memberTokens_pair:
  assumes "type (peek p) = DOT" and "type (peek (advance p)) = IDENTIFIER"
  shows "memberTokens p = peek (advance p) # memberTokens (advance (advance p))"
proof -
  note f = dot_identifier_pair[OF assms]
  have "drop (current p) (ptokens p) =
          ptokens p ! current p # ptokens p ! Suc (current p) # drop (Suc (Suc (current p))) (ptokens p)"
    using f(1) by (simp add: Cons_nth_drop_Suc Suc_lessD)
  then show ?thesis
    using assms(2) f(5) unfolding memberTokens_def f(3) f(4) by simp
qed

lemma newMembers_result:
  "newMembers n object p = Inr (object', p') \<Longrightarrow>
     object' = memberChain object (memberTokens p) \<and> p' = afterMembers p"
proof (induction n arbitrary: object p)
  case 0
  then show ?case by simp
next
  case (Suc n)
  show ?case
  proof (cases "type (peek p) = DOT")
    case False
    with Suc.prems have "object' = object" "p' = p"
      by (simp_all add: match_def)
    then show ?thesis
      using memberTokens_none[OF False] by (simp add: memberChain_def afterMembers_def)
  next
    case True
    with Suc.prems have i: "type (peek (advance p)) = IDENTIFIER"
      by (auto simp: match_def memberExpr_def andThen_def consume_def split: sum.splits if_splits)
    let ?ident = "peek (advance p)"
    let ?obj = "MemberExpression object ?ident (Span (start (nodeSpan object)) (finish (span ?ident)))"
    from Suc.prems True i have r: "newMembers n ?obj (advance (advance p)) = Inr (object', p')"
      by (simp add: match_def memberExpr_def andThen_def consume_def)
    from Suc.IH[OF r] have o: "object' = memberChain ?obj (memberTokens (advance (advance p)))"
      and p: "p' = afterMembers (advance (advance p))"
      by simp_all
    note f = dot_identifier_pair[OF True i]
    have mt: "memberTokens p = ?ident # memberTokens (advance (advance p))"
      using True i by (rule memberTokens_pair)
    have "object' = memberChain object (memberTokens p)"
      unfolding mt o by (simp add: memberChain_Cons)
    moreover have "p' = afterMembers p"
      unfolding p afterMembers_def mt unfolding f(4) by simp
    ultimately show ?thesis by simp
  qed
qed

section \<open>Claims about the tokenizer\<close>

text \<open>
  C7. For every source string, the list of tokens returned by \<open>tokenize\<close> holds as
  many \<open>INDENT\<close> tokens as \<open>OUTDENT\<close> tokens. The two tables are parameters; the
  statement is for tables that give no character and no word the type \<open>INDENT\<close> or
  \<open>OUTDENT\<close>.
\<close>

theorem tokenize_indent_balance:
  assumes ct: "\<forall>c. ct c \<noteq> Some INDENT \<and> ct c \<noteq> Some OUTDENT"
    and wt: "\<forall>w. wt w \<noteq> Some INDENT \<and> wt w \<noteq> Some OUTDENT"
  shows "length (filter (\<lambda>x. type x = INDENT) (tokens (tokenize ct wt src)))
         = length (filter (\<lambda>x. type x = OUTDENT) (tokens (tokenize ct wt src)))"
proof -
  let ?I = "\<lambda>t. countType INDENT (tokens t) = countType OUTDENT (tokens t) + indent t"
  let ?t1 = "scanLines ct wt (newTokenizer src)"
  have ct': "k \<noteq> INDENT \<and> k \<noteq> OUTDENT" if "ct c = Some k" for c k
    using ct that by metis
  have wt': "k \<noteq> INDENT \<and> k \<noteq> OUTDENT" if "wt w = Some k" for w k
    using wt that by metis
  have init: "?I (newTokenizer src)"
    by (simp add: newTokenizer_def)
  have step: "?I (scanLine ct wt i s)"
    if "lines s = lines (newTokenizer src)" "?I s" "i < length (lines (newTokenizer src))" for s i
  proof -
    from that have "i < length (lines s)" by simp
    then show ?thesis using ct' wt' that(2) by (rule scanLine_balance)
  qed
  have "?I ?t1"
    using init step by (rule scanLines_invariant(1))
  then have "countType INDENT (tokens (tokenize ct wt src))
      = countType OUTDENT (tokens (tokenize ct wt src))"
    by (simp add: tokenize_def Let_def)
  then show ?thesis
    by (simp add: countType_def)
qed

theorem tokenize_indent_balance_witness:
  "length (filter (\<lambda>x. type x = INDENT)
     (tokens (tokenize charTokens wordTokens (''a'' @ [CHR 0x0A, CHR 0x09] @ ''b''))))
   = length (filter (\<lambda>x. type x = OUTDENT)
     (tokens (tokenize charTokens wordTokens (''a'' @ [CHR 0x0A, CHR 0x09] @ ''b''))))
   \<and> length (filter (\<lambda>x. type x = INDENT)
     (tokens (tokenize charTokens wordTokens (''a'' @ [CHR 0x0A, CHR 0x09] @ ''b'')))) = 1"
proof
  show "length (filter (\<lambda>x. type x = INDENT)
     (tokens (tokenize charTokens wordTokens (''a'' @ [CHR 0x0A, CHR 0x09] @ ''b''))))
   = length (filter (\<lambda>x. type x = OUTDENT)
     (tokens (tokenize charTokens wordTokens (''a'' @ [CHR 0x0A, CHR 0x09] @ ''b''))))"
    by (rule tokenize_indent_balance) (simp_all add: charTokens_virtual wordTokens_virtual)
  show "length (filter (\<lambda>x. type x = INDENT)
     (tokens (tokenize charTokens wordTokens (''a'' @ [CHR 0x0A, CHR 0x09] @ ''b'')))) = 1"
    by (simp add: tokenizer_eval charTokens_def wordTokens_def)
qed


text \<open>
  C3 (as amended). In the list of tokens returned by \<open>tokenize\<close>, every \<open>OUTDENT\<close>
  and \<open>EOF\<close> token has the empty lexeme, every \<open>INDENT\<close> token has the lexeme of
  one tab character, every \<open>NEWLINE\<close> token has the lexeme of one line feed, and the
  lexeme of every other token is the text of the source that its span covers. The two
  tables are parameters; the statement is for tables that give no character and no word
  one of the four virtual types. The counterexample shows an \<open>INDENT\<close> and a
  \<open>NEWLINE\<close> token whose lexemes are not empty.
\<close>

theorem tokenize_lexemes:
  assumes ct: "\<forall>c k. ct c = Some k \<longrightarrow> k \<notin> {INDENT, OUTDENT, NEWLINE, EOF}"
    and wt: "\<forall>w k. wt w = Some k \<longrightarrow> k \<notin> {INDENT, OUTDENT, NEWLINE, EOF}"
    and tk: "tk \<in> set (tokens (tokenize ct wt src))"
  shows "(type tk = OUTDENT \<or> type tk = EOF \<longrightarrow> lexeme tk = [])
       \<and> (type tk = INDENT \<longrightarrow> lexeme tk = [tab])
       \<and> (type tk = NEWLINE \<longrightarrow> lexeme tk = [CHR 0x0A])
       \<and> (type tk \<notin> {INDENT, OUTDENT, NEWLINE, EOF}
            \<longrightarrow> sourceText (splitLines src) (span tk) = Some (lexeme tk))"
proof -
  have "\<forall>x\<in>set (tokens (tokenize ct wt src)). lexemeRule (splitLines src) x"
  proof (rule tokenize_lexemeRule)
    show "k \<notin> {INDENT, OUTDENT, NEWLINE, EOF}" if "ct c = Some k" for c k
      using ct that by blast
    show "k \<notin> {INDENT, OUTDENT, NEWLINE, EOF}" if "wt w = Some k" for w k
      using wt that by blast
  qed
  with tk have "lexemeRule (splitLines src) tk"
    by blast
  then show ?thesis
    by (auto simp: lexemeRule_def split: if_splits)
qed

theorem tokenize_lexemes_witness:
  "Token STRING ([CHR 0x27] @ ''b c'' @ [CHR 0x27]) (Span (1, 1) (1, 6))
     \<in> set (tokens (tokenize charTokens wordTokens
               (''a'' @ [CHR 0x0A, CHR 0x09, CHR 0x27] @ ''b c'' @ [CHR 0x27])))
   \<and> sourceText (splitLines (''a'' @ [CHR 0x0A, CHR 0x09, CHR 0x27] @ ''b c'' @ [CHR 0x27]))
        (Span (1, 1) (1, 6)) = Some ([CHR 0x27] @ ''b c'' @ [CHR 0x27])"
proof -
  let ?src = "''a'' @ [CHR 0x0A, CHR 0x09, CHR 0x27] @ ''b c'' @ [CHR 0x27]"
  let ?tk = "Token STRING ([CHR 0x27] @ ''b c'' @ [CHR 0x27]) (Span (1, 1) (1, 6))"
  have ct: "\<forall>c k. charTokens c = Some k \<longrightarrow> k \<notin> {INDENT, OUTDENT, NEWLINE, EOF}"
    using charTokens_virtual by auto
  have wt: "\<forall>w k. wordTokens w = Some k \<longrightarrow> k \<notin> {INDENT, OUTDENT, NEWLINE, EOF}"
    using wordTokens_virtual by auto
  have tk: "?tk \<in> set (tokens (tokenize charTokens wordTokens ?src))"
    by (simp add: tokenizer_eval charTokens_def wordTokens_def)
  from tokenize_lexemes[OF ct wt tk] tk show ?thesis
    by simp
qed

theorem virtual_lexeme_counterexample:
  "type (tokens (tokenize charTokens wordTokens [CHR 0x09, CHR ''x'']) ! 0) = INDENT
   \<and> lexeme (tokens (tokenize charTokens wordTokens [CHR 0x09, CHR ''x'']) ! 0) \<noteq> []
   \<and> type (tokens (tokenize charTokens wordTokens [CHR 0x09, CHR ''x'']) ! 2) = NEWLINE
   \<and> lexeme (tokens (tokenize charTokens wordTokens [CHR 0x09, CHR ''x'']) ! 2) \<noteq> []"
  by (simp add: tokenizer_eval charTokens_def wordTokens_def)







text \<open>
  C10. A word that is not exactly \<open>is\<close> (such as \<open>island\<close>), that is none of the
  three bare words and that is no reserved word, becomes one \<open>IDENTIFIER\<close> token that
  covers the whole word, whatever follows it on the line: the match of a comparison
  operator is tried for the word \<open>is\<close> only. The iteration of the scanning loop at the
  word appends that token and moves on by the length of the word, and the loop goes on
  behind the word. When the line is no comment line and the scanning loop of the line
  arrives at the column of the word (started at the indentation of the line in any state,
  it goes on as the loop at that column does; the first word of a line is such a word),
  the token is a token of the list that \<open>tokenize\<close> returns for the source, whatever
  the other lines hold.
\<close>

theorem plain_word_identifier:
  assumes "lineIndex < length (splitLines src)"
    and "line = splitLines src ! lineIndex"
    and "ct (line ! colIndex) = None"
    and "wordRegex (drop colIndex line) = Some w"
    and "w \<noteq> ''is''"
    and "\<not> (w = ''less'' \<or> w = ''greater'' \<or> w = ''than'')"
    and "wt w = None"
  shows "scanStep ct wt line lineIndex colIndex t =
           (colIndex + length w,
            t\<lparr>tokens := tokens t @
                 [Token IDENTIFIER w
                    (Span (lineIndex, colIndex) (lineIndex, colIndex + length w))]\<rparr>)
       \<and> scanChars ct wt line lineIndex colIndex t =
           scanChars ct wt line lineIndex (colIndex + length w)
             (t\<lparr>tokens := tokens t @
                  [Token IDENTIFIER w
                     (Span (lineIndex, colIndex) (lineIndex, colIndex + length w))]\<rparr>)
       \<and> (hd (trimLeft line) \<noteq> CHR ''#''
            \<and> (\<forall>t0. \<exists>t1. scanChars ct wt line lineIndex (getIndent line) t0
                         = scanChars ct wt line lineIndex colIndex t1)
          \<longrightarrow> Token IDENTIFIER w (Span (lineIndex, colIndex) (lineIndex, colIndex + length w))
                \<in> set (tokens (tokenize ct wt src)))"
proof -
  let ?tk = "Token IDENTIFIER w (Span (lineIndex, colIndex) (lineIndex, colIndex + length w))"
  have col: "colIndex < length line"
    using assms(4) by (cases "colIndex < length line") (simp_all add: wordRegex_def)
  have step: "scanStep ct wt line lineIndex colIndex s =
           (colIndex + length w, s\<lparr>tokens := tokens s @ [?tk]\<rparr>)" for s
  proof -
    have "matchWord wt w (drop colIndex line) lineIndex colIndex s =
            (length w, s\<lparr>tokens := tokens s @ [?tk]\<rparr>)"
      using assms(5,7) by (simp add: matchWord_plain[OF assms(6)])
    with col assms(3,4) show ?thesis
      by (rule scanStep_word)
  qed
  have loop: "scanChars ct wt line lineIndex colIndex t =
           scanChars ct wt line lineIndex (colIndex + length w) (t\<lparr>tokens := tokens t @ [?tk]\<rparr>)"
    by (simp add: scanChars_step[OF col] step)
  have "?tk \<in> set (tokens (tokenize ct wt src))"
    if nc: "hd (trimLeft line) \<noteq> CHR ''#''"
      and reach: "\<forall>t0. \<exists>t1. scanChars ct wt line lineIndex (getIndent line) t0
                     = scanChars ct wt line lineIndex colIndex t1"
  proof (rule tokenize_contains_line[OF assms(1)])
    fix s :: Tokenizer
    assume "lines s = splitLines src"
    then have l: "lines s ! lineIndex = line"
      using assms(2) by simp
    from l col assms(4) nc reach step
    show "?tk \<in> set (tokens (scanLine ct wt lineIndex s))"
      by (rule scanLine_reached_word)
  qed
  with step loop show ?thesis
    by blast
qed

theorem plain_word_identifier_witness:
  "scanStep charTokens wordTokens ''x.island'' 0 2
       ((newTokenizer ''x.island'')\<lparr>tokens :=
            [Token IDENTIFIER ''x'' (Span (0, 0) (0, 1)),
             Token DOT ''.'' (Span (0, 1) (0, 2))]\<rparr>) =
     (8, (newTokenizer ''x.island'')\<lparr>tokens :=
            [Token IDENTIFIER ''x'' (Span (0, 0) (0, 1)),
             Token DOT ''.'' (Span (0, 1) (0, 2)),
             Token IDENTIFIER ''island'' (Span (0, 2) (0, 8))]\<rparr>)
   \<and> Token IDENTIFIER ''island'' (Span (0, 2) (0, 8))
        \<in> set (tokens (tokenize charTokens wordTokens ''x.island''))
   \<and> tokens (tokenize charTokens wordTokens ''x.island'') =
        [Token IDENTIFIER ''x'' (Span (0, 0) (0, 1)),
         Token DOT ''.'' (Span (0, 1) (0, 2)),
         Token IDENTIFIER ''island'' (Span (0, 2) (0, 8)),
         Token NEWLINE [CHR 0x0A] (Span (0, 8) (0, 9)),
         Token EOF [] (Span (0, 8) (0, 9))]
   \<and> tokens (tokenize charTokens wordTokens ''island not x'') =
        [Token IDENTIFIER ''island'' (Span (0, 0) (0, 6)),
         Token NOT ''not'' (Span (0, 7) (0, 10)),
         Token IDENTIFIER ''x'' (Span (0, 11) (0, 12)),
         Token NEWLINE [CHR 0x0A] (Span (0, 12) (0, 13)),
         Token EOF [] (Span (0, 12) (0, 13))]"
proof -
  let ?src = "''x.island''"
  let ?xs = "[Token IDENTIFIER ''x'' (Span (0, 0) (0, 1)), Token DOT ''.'' (Span (0, 1) (0, 2))]"
  let ?t = "(newTokenizer ?src)\<lparr>tokens := ?xs\<rparr>"
  have h: "0 < length (splitLines ?src)"
    "?src = splitLines ?src ! 0"
    "charTokens (?src ! 2) = None"
    "wordRegex (drop 2 ?src) = Some ''island''"
    "''island'' \<noteq> ''is''"
    "\<not> (''island'' = ''less'' \<or> ''island'' = ''greater'' \<or> ''island'' = ''than'')"
    "wordTokens ''island'' = None"
    by (simp_all add: charTokens_def wordTokens_def wordRegex_def isLetter_def isWordChar_def
        isDigit_def)
  have len: "2 + length ''island'' = (8::nat)"
    by simp
  have nc: "hd (trimLeft ?src) \<noteq> CHR ''#''"
    by (simp add: trimLeft_def isSpace_def)
  have reach: "\<forall>t0. \<exists>t1. scanChars charTokens wordTokens ?src 0 (getIndent ?src) t0
                   = scanChars charTokens wordTokens ?src 0 2 t1"
  proof
    fix t0 :: Tokenizer
    have "scanChars charTokens wordTokens ?src 0 (getIndent ?src) t0
        = scanChars charTokens wordTokens ?src 0 2 (t0\<lparr>tokens := tokens t0 @ ?xs\<rparr>)"
      by (simp add: tokenizer_eval charTokens_def wordTokens_def)
    then show "\<exists>t1. scanChars charTokens wordTokens ?src 0 (getIndent ?src) t0
                   = scanChars charTokens wordTokens ?src 0 2 t1" ..
  qed
  note inst = plain_word_identifier[where lineIndex = 0 and src = ?src
      and line = ?src and ct = charTokens and colIndex = 2 and w = "''island''"
      and wt = wordTokens and t = ?t, OF h]
  from inst have "scanStep charTokens wordTokens ?src 0 2 ?t =
     (2 + length ''island'', ?t\<lparr>tokens := tokens ?t @
            [Token IDENTIFIER ''island'' (Span (0, 2) (0, 2 + length ''island''))]\<rparr>)"
    by blast
  then have a: "scanStep charTokens wordTokens ?src 0 2 ?t =
     (8, (newTokenizer ?src)\<lparr>tokens :=
            [Token IDENTIFIER ''x'' (Span (0, 0) (0, 1)),
             Token DOT ''.'' (Span (0, 1) (0, 2)),
             Token IDENTIFIER ''island'' (Span (0, 2) (0, 8))]\<rparr>)"
    unfolding len by (simp add: newTokenizer_def)
  from inst nc reach have "Token IDENTIFIER ''island'' (Span (0, 2) (0, 2 + length ''island''))
        \<in> set (tokens (tokenize charTokens wordTokens ?src))"
    by blast
  then have b: "Token IDENTIFIER ''island'' (Span (0, 2) (0, 8))
        \<in> set (tokens (tokenize charTokens wordTokens ?src))"
    by (simp only: len)
  have c: "tokens (tokenize charTokens wordTokens ?src) =
        [Token IDENTIFIER ''x'' (Span (0, 0) (0, 1)),
         Token DOT ''.'' (Span (0, 1) (0, 2)),
         Token IDENTIFIER ''island'' (Span (0, 2) (0, 8)),
         Token NEWLINE [CHR 0x0A] (Span (0, 8) (0, 9)),
         Token EOF [] (Span (0, 8) (0, 9))]"
    by (simp add: tokenizer_eval charTokens_def wordTokens_def)
  have d: "tokens (tokenize charTokens wordTokens ''island not x'') =
        [Token IDENTIFIER ''island'' (Span (0, 0) (0, 6)),
         Token NOT ''not'' (Span (0, 7) (0, 10)),
         Token IDENTIFIER ''x'' (Span (0, 11) (0, 12)),
         Token NEWLINE [CHR 0x0A] (Span (0, 12) (0, 13)),
         Token EOF [] (Span (0, 12) (0, 13))]"
    by (simp add: tokenizer_eval charTokens_def wordTokens_def)
  from a b c d show ?thesis by blast
qed

text \<open>
  C6. The tokens of the input \<open>if x is less than y\<close> hold exactly one token of type
  \<open>IS_LESS_THAN\<close>; its lexeme is \<open>is less than\<close> and its span runs from column 5 to
  column 17 of line 0, over the three words; no token has the lexeme \<open>is\<close>, \<open>less\<close>
  or \<open>than\<close>. The statement is for all tables in which the letters that start the
  words of the input are no single-character tokens and in which neither the space nor
  the words \<open>if\<close>, \<open>x\<close> and \<open>y\<close> are given the type \<open>IS_LESS_THAN\<close>.
\<close>

theorem is_less_than_single_token:
  assumes ct: "ct CHR ''i'' = None" "ct CHR ''x'' = None" "ct CHR ''y'' = None"
      "ct CHR '' '' \<noteq> Some IS_LESS_THAN"
    and wt: "wt ''if'' \<noteq> Some IS_LESS_THAN" "wt ''x'' \<noteq> Some IS_LESS_THAN"
      "wt ''y'' \<noteq> Some IS_LESS_THAN"
  shows "filter (\<lambda>tk. type tk = IS_LESS_THAN) (tokens (tokenize ct wt ''if x is less than y''))
           = [Token IS_LESS_THAN ''is less than'' (Span (0, 5) (0, 17))]
       \<and> filter (\<lambda>tk. lexeme tk = ''is'' \<or> lexeme tk = ''less'' \<or> lexeme tk = ''than'')
            (tokens (tokenize ct wt ''if x is less than y'')) = []"
proof (cases "ct CHR '' ''")
  case None
  show ?thesis
    unfolding is_less_than_tokens[of ct wt, OF ct(1-3) None] using wt
    by (auto split: option.splits)
next
  case (Some k)
  with ct(4) have "k \<noteq> IS_LESS_THAN" by simp
  then show ?thesis
    unfolding is_less_than_tokens_space[of ct k wt, OF ct(1-3) Some] using wt
    by (auto split: option.splits)
qed

theorem is_less_than_single_token_witness:
  "filter (\<lambda>tk. type tk = IS_LESS_THAN)
      (tokens (tokenize charTokens wordTokens ''if x is less than y''))
           = [Token IS_LESS_THAN ''is less than'' (Span (0, 5) (0, 17))]
   \<and> filter (\<lambda>tk. lexeme tk = ''is'' \<or> lexeme tk = ''less'' \<or> lexeme tk = ''than'')
        (tokens (tokenize charTokens wordTokens ''if x is less than y'')) = []"
  by (rule is_less_than_single_token) (simp_all add: charTokens_def wordTokens_def)


text \<open>
  C9. The tokens of the empty source are exactly one \<open>EOF\<close> token, there are no
  comments and no diagnostics; the parser turns that token list into a program with an
  empty body and no diagnostics. The statement holds for all tables.
\<close>

theorem empty_input:
  "tokens (tokenize ct wt []) = [Token EOF [] (Span (0, 0) (0, 1))]
   \<and> comments (tokenize ct wt []) = []
   \<and> diagnostics (tokenize ct wt []) = []
   \<and> parse (tokens (tokenize ct wt [])) = Some (Program [] (Span (0, 0) (0, 1)), [])"
  unfolding tokenize_empty
  by (simp add: parser_eval cong: andThen_weak_cong)

section \<open>Claims about the parser and the linter\<close>




text \<open>
  C8. For a class declaration the rule appends to the reports, in order, one \<open>ERROR\<close>
  diagnostic \<open>You can only put declarations in a class body\<close> at the span of the node
  for exactly the entries of \<open>staticBody\<close> and then of \<open>instanceBody\<close> whose value is
  no declaration, and nothing for the entries whose value is a declaration.
\<close>

theorem declarationsInClass_reports:
  "declarationsInClass isDeclaration node reports =
     reports @ map (\<lambda>n. Diagnostic ERROR ''linter''
                          ''You can only put declarations in a class body'' (nodeSpan n) [])
                 (filter (\<lambda>n. \<not> isDeclaration n)
                    (map propValue (staticBody node @ instanceBody node)))"
proof -
  let ?d = "\<lambda>n. Diagnostic ERROR ''linter''
                 ''You can only put declarations in a class body'' (nodeSpan n) []"
  let ?bad = "\<lambda>props. filter (\<lambda>n. \<not> isDeclaration n) (map propValue props)"
  have static:
    "fold (\<lambda>prop. checkNode isDeclaration (propValue prop)) (staticBody node) reports
       = reports @ map ?d (?bad (staticBody node))"
    by (rule fold_checkNode)
  have "declarationsInClass isDeclaration node reports
       = (reports @ map ?d (?bad (staticBody node))) @ map ?d (?bad (instanceBody node))"
    unfolding declarationsInClass_def static by (rule fold_checkNode)
  also have "\<dots> = reports @ map ?d (?bad (staticBody node @ instanceBody node))"
    by simp
  finally show ?thesis .
qed

text \<open>
  C2 (as amended). The object of every \<open>New\<close> expression that \<open>newExpr\<close> returns is the
  expression that \<open>parsePrecedence\<close> returned for the precedence \<open>OP11\<close> after the
  \<open>new\<close> token, wrapped in one member access for each pair \<open>.identifier\<close> that
  follows it in the token list, in their order; \<open>newExpr\<close> does not restrict the kind
  of that expression. The generic arguments are the ones read behind those pairs, an
  opening parenthesis follows them, and the parameters are the expression list read behind
  it, up to the state that \<open>newExpr\<close> returns. The statement holds for every expression
  parser \<open>pp\<close>. The counterexample is the source \<open>new 5<T>()\<close>, whose \<open>New\<close>
  expression has a number literal as its object.
\<close>

theorem newExpr_object:
  assumes "newExpr pp n prefix p = Inr (node, p')"
  shows "\<exists>root p1 genericArgs p5 params.
           pp OP11 (''Expected an expression after '' @ [CHR 0x27] @ ''new'' @ [CHR 0x27])
              [(''Add an expression after this new'', span prefix)] (ignoreNewline p)
             = Inr (root, p1)
           \<and> newGenerics n (afterMembers (ignoreNewline p1)) = Inr (genericArgs, p5)
           \<and> type (peek p5) = L_PAR
           \<and> matchExpressionList pp n R_PAR (advance p5) = Inr (params, p')
           \<and> node = NewExpression (memberChain root (memberTokens (ignoreNewline p1)))
                      genericArgs params
                      (Span (start (span prefix)) (finish (span (previous p'))))"
proof -
  from assms obtain root p1 where
    root: "pp OP11 (''Expected an expression after '' @ [CHR 0x27] @ ''new'' @ [CHR 0x27])
              [(''Add an expression after this new'', span prefix)] (ignoreNewline p)
             = Inr (root, p1)"
    by (auto simp: newExpr_def andThen_def split: sum.splits)
  with assms obtain object p2 where
    mem: "newMembers n root (ignoreNewline p1) = Inr (object, p2)"
    by (auto simp: newExpr_def andThen_def split: sum.splits)
  from newMembers_result[OF mem] have
    object: "object = memberChain root (memberTokens (ignoreNewline p1))"
    and p2: "p2 = afterMembers (ignoreNewline p1)"
    by simp_all
  from assms root mem obtain genericArgs p5 where
    gen: "newGenerics n p2 = Inr (genericArgs, p5)"
    by (auto simp: newExpr_def newGenerics_def andThen_def split: sum.splits)
  from assms root mem gen have lpar: "type (peek p5) = L_PAR"
    by (auto simp: newExpr_def newGenerics_def andThen_def consume_def
        split: sum.splits prod.splits if_splits)
  from assms root mem gen lpar obtain params where
    params: "matchExpressionList pp n R_PAR (advance p5) = Inr (params, p')"
    and node: "node = NewExpression object genericArgs params
                      (Span (start (span prefix)) (finish (span (previous p'))))"
    by (auto simp: newExpr_def newGenerics_def andThen_def consume_def
        split: sum.splits prod.splits if_splits)
  from root gen lpar params node show ?thesis
    unfolding object p2 by blast
qed

theorem newExpr_object_witness:
  "newExpr (parsePrecedence 20) 20 (Token NEW ''new'' (Span (0, 0) (0, 3)))
     \<lparr>ptokens = tokens (tokenize charTokens wordTokens ''new a.b<T>(1)''),
      current = 1, pdiagnostics = []\<rparr>
   = Inr (NewExpression
            (MemberExpression
               (Literal (Token IDENTIFIER ''a'' (Span (0, 4) (0, 5))) (Span (0, 4) (0, 5)))
               (Token IDENTIFIER ''b'' (Span (0, 6) (0, 7))) (Span (0, 4) (0, 7)))
            [VariableType [Token IDENTIFIER ''T'' (Span (0, 8) (0, 9))] [] (Span (0, 8) (0, 9))]
            [Literal (Token NUMBER ''1'' (Span (0, 11) (0, 12))) (Span (0, 11) (0, 12))]
            (Span (0, 0) (0, 13)),
          \<lparr>ptokens = tokens (tokenize charTokens wordTokens ''new a.b<T>(1)''),
           current = 10, pdiagnostics = []\<rparr>)
   \<and> parsePrecedence 20 OP11
         (''Expected an expression after '' @ [CHR 0x27] @ ''new'' @ [CHR 0x27])
         [(''Add an expression after this new'', Span (0, 0) (0, 3))]
         \<lparr>ptokens = tokens (tokenize charTokens wordTokens ''new a.b<T>(1)''),
          current = 1, pdiagnostics = []\<rparr>
       = Inr (Literal (Token IDENTIFIER ''a'' (Span (0, 4) (0, 5))) (Span (0, 4) (0, 5)),
              \<lparr>ptokens = tokens (tokenize charTokens wordTokens ''new a.b<T>(1)''),
               current = 2, pdiagnostics = []\<rparr>)
   \<and> memberTokens
         \<lparr>ptokens = tokens (tokenize charTokens wordTokens ''new a.b<T>(1)''),
          current = 2, pdiagnostics = []\<rparr>
       = [Token IDENTIFIER ''b'' (Span (0, 6) (0, 7))]
   \<and> MemberExpression
         (Literal (Token IDENTIFIER ''a'' (Span (0, 4) (0, 5))) (Span (0, 4) (0, 5)))
         (Token IDENTIFIER ''b'' (Span (0, 6) (0, 7))) (Span (0, 4) (0, 7))
       = memberChain
           (Literal (Token IDENTIFIER ''a'' (Span (0, 4) (0, 5))) (Span (0, 4) (0, 5)))
           (memberTokens
              \<lparr>ptokens = tokens (tokenize charTokens wordTokens ''new a.b<T>(1)''),
               current = 2, pdiagnostics = []\<rparr>)"
proof -
  let ?ts = "[Token NEW ''new'' (Span (0, 0) (0, 3)),
       Token IDENTIFIER ''a'' (Span (0, 4) (0, 5)),
       Token DOT ''.'' (Span (0, 5) (0, 6)),
       Token IDENTIFIER ''b'' (Span (0, 6) (0, 7)),
       Token LT ''<'' (Span (0, 7) (0, 8)),
       Token IDENTIFIER ''T'' (Span (0, 8) (0, 9)),
       Token GT ''>'' (Span (0, 9) (0, 10)),
       Token L_PAR ''('' (Span (0, 10) (0, 11)),
       Token NUMBER ''1'' (Span (0, 11) (0, 12)),
       Token R_PAR '')'' (Span (0, 12) (0, 13)),
       Token NEWLINE [CHR 0x0A] (Span (0, 13) (0, 14)),
       Token EOF [] (Span (0, 13) (0, 14))]"
  let ?a = "Literal (Token IDENTIFIER ''a'' (Span (0, 4) (0, 5))) (Span (0, 4) (0, 5))"
  let ?msg = "''Expected an expression after '' @ [CHR 0x27] @ ''new'' @ [CHR 0x27]"
  have ts: "tokens (tokenize charTokens wordTokens ''new a.b<T>(1)'') = ?ts"
    by (simp add: tokenizer_eval charTokens_def wordTokens_def)
  have run: "newExpr (parsePrecedence 20) 20 (Token NEW ''new'' (Span (0, 0) (0, 3)))
      \<lparr>ptokens = ?ts, current = 1, pdiagnostics = []\<rparr>
    = Inr (NewExpression
            (MemberExpression ?a (Token IDENTIFIER ''b'' (Span (0, 6) (0, 7))) (Span (0, 4) (0, 7)))
            [VariableType [Token IDENTIFIER ''T'' (Span (0, 8) (0, 9))] [] (Span (0, 8) (0, 9))]
            [Literal (Token NUMBER ''1'' (Span (0, 11) (0, 12))) (Span (0, 11) (0, 12))]
            (Span (0, 0) (0, 13)),
           \<lparr>ptokens = ?ts, current = 10, pdiagnostics = []\<rparr>)"
    by (simp add: parser_eval cong: andThen_weak_cong)
  have root: "parsePrecedence 20 OP11 ?msg
         [(''Add an expression after this new'', Span (0, 0) (0, 3))]
         \<lparr>ptokens = ?ts, current = 1, pdiagnostics = []\<rparr>
       = Inr (?a, \<lparr>ptokens = ?ts, current = 2, pdiagnostics = []\<rparr>)"
    by (simp add: parser_eval cong: andThen_weak_cong)
  have mt: "memberTokens \<lparr>ptokens = ?ts, current = 2, pdiagnostics = []\<rparr>
       = [Token IDENTIFIER ''b'' (Span (0, 6) (0, 7))]"
    by (simp add: memberTokens_def)
  from newExpr_object[OF run] obtain r p1 g p5 ps where
    r: "parsePrecedence 20 OP11 ?msg
          [(''Add an expression after this new'', span (Token NEW ''new'' (Span (0, 0) (0, 3))))]
          (ignoreNewline \<lparr>ptokens = ?ts, current = 1, pdiagnostics = []\<rparr>) = Inr (r, p1)"
    and n: "NewExpression
            (MemberExpression ?a (Token IDENTIFIER ''b'' (Span (0, 6) (0, 7))) (Span (0, 4) (0, 7)))
            [VariableType [Token IDENTIFIER ''T'' (Span (0, 8) (0, 9))] [] (Span (0, 8) (0, 9))]
            [Literal (Token NUMBER ''1'' (Span (0, 11) (0, 12))) (Span (0, 11) (0, 12))]
            (Span (0, 0) (0, 13))
          = NewExpression (memberChain r (memberTokens (ignoreNewline p1))) g ps
              (Span (start (span (Token NEW ''new'' (Span (0, 0) (0, 3)))))
                 (finish (span (previous \<lparr>ptokens = ?ts, current = 10, pdiagnostics = []\<rparr>))))"
    by blast
  have ign: "ignoreNewline \<lparr>ptokens = ?ts, current = 1, pdiagnostics = []\<rparr>
      = \<lparr>ptokens = ?ts, current = 1, pdiagnostics = []\<rparr>"
    by (simp add: ignoreNewline_def)
  from r root have r1: "r = ?a" and p1: "p1 = \<lparr>ptokens = ?ts, current = 2, pdiagnostics = []\<rparr>"
    unfolding ign by simp_all
  have ign2: "ignoreNewline \<lparr>ptokens = ?ts, current = 2, pdiagnostics = []\<rparr>
      = \<lparr>ptokens = ?ts, current = 2, pdiagnostics = []\<rparr>"
    by (simp add: ignoreNewline_def)
  from n have chain: "MemberExpression ?a (Token IDENTIFIER ''b'' (Span (0, 6) (0, 7))) (Span (0, 4) (0, 7))
      = memberChain ?a (memberTokens \<lparr>ptokens = ?ts, current = 2, pdiagnostics = []\<rparr>)"
    unfolding r1 p1 ign2 by simp
  from run root mt chain show ?thesis
    unfolding ts by simp
qed

theorem new_object_counterexample:
  "parse (tokens (tokenize charTokens wordTokens ''new 5<T>()'')) =
     Some (Program
             [ExpressionStatement
                (NewExpression
                   (Literal (Token NUMBER ''5'' (Span (0, 4) (0, 5))) (Span (0, 4) (0, 5)))
                   [VariableType [Token IDENTIFIER ''T'' (Span (0, 6) (0, 7))] []
                      (Span (0, 6) (0, 7))]
                   [] (Span (0, 0) (0, 10)))
                (Span (0, 0) (0, 10))]
             (Span (0, 0) (0, 11)),
           [])
   \<and> \<not> isIdentifierChain
          (Literal (Token NUMBER ''5'' (Span (0, 4) (0, 5))) (Span (0, 4) (0, 5)))"
proof -
  have "tokens (tokenize charTokens wordTokens ''new 5<T>()'') =
      [Token NEW ''new'' (Span (0, 0) (0, 3)),
       Token NUMBER ''5'' (Span (0, 4) (0, 5)),
       Token LT ''<'' (Span (0, 5) (0, 6)),
       Token IDENTIFIER ''T'' (Span (0, 6) (0, 7)),
       Token GT ''>'' (Span (0, 7) (0, 8)),
       Token L_PAR ''('' (Span (0, 8) (0, 9)),
       Token R_PAR '')'' (Span (0, 9) (0, 10)),
       Token NEWLINE [CHR 0x0A] (Span (0, 10) (0, 11)),
       Token EOF [] (Span (0, 10) (0, 11))]"
    by (simp add: tokenizer_eval charTokens_def wordTokens_def)
  then show ?thesis
    by (simp add: parser_eval cong: andThen_weak_cong)
qed

end
